theory Spec2Isabelle
  imports Main
begin

section \<open>Characters and the string primitives of the host language\<close>

text \<open>
  A string is a list of code units.  The model covers the code units \<open>0x00 .. 0xFF\<close>
  (the first 256 code points, each one code unit of the host's strings); on them the
  character classes below are the ones the host language defines.
\<close>

definition LF :: char where "LF = CHR 0x0A"
definition CR :: char where "CR = CHR 0x0D"
definition DQ :: char where "DQ = CHR 0x22"
definition SQ :: char where "SQ = CHR 0x27"

text \<open>Line terminators: what \<open>.\<close> refuses and what \<open>^\<close>/\<open>$\<close> look at in multiline mode.\<close>

definition is_lt :: "char \<Rightarrow> bool" where
  "is_lt c = (c = CHR 0x0A \<or> c = CHR 0x0D)"

text \<open>White space: the class \<open>\s\<close>, and what \<open>trim\<close> strips (tab, LF, VT, FF, CR, space, NBSP).\<close>

definition is_space :: "char \<Rightarrow> bool" where
  "is_space c = (c = CHR 0x09 \<or> c = CHR 0x0A \<or> c = CHR 0x0B \<or> c = CHR 0x0C
                 \<or> c = CHR 0x0D \<or> c = CHR 0x20 \<or> c = CHR 0xA0)"

definition is_digit :: "char \<Rightarrow> bool" where
  "is_digit c = (let n = (of_char c :: nat) in 48 \<le> n \<and> n \<le> 57)"

definition is_upper :: "char \<Rightarrow> bool" where
  "is_upper c = (let n = (of_char c :: nat) in 65 \<le> n \<and> n \<le> 90)"

definition is_lower :: "char \<Rightarrow> bool" where
  "is_lower c = (let n = (of_char c :: nat) in 97 \<le> n \<and> n \<le> 122)"

text \<open>The class \<open>\w\<close>: \<open>[A-Za-z0-9_]\<close>.\<close>

definition is_word :: "char \<Rightarrow> bool" where
  "is_word c = (is_upper c \<or> is_lower c \<or> is_digit c \<or> c = CHR ''_'')"

text \<open>\<open>toLowerCase\<close> on one code unit: \<open>A-Z\<close>, and \<open>0xC0 .. 0xDE\<close> except \<open>0xD7\<close>.\<close>

definition lower_char :: "char \<Rightarrow> char" where
  "lower_char c =
     (let n = (of_char c :: nat) in
      if (65 \<le> n \<and> n \<le> 90) \<or> (192 \<le> n \<and> n \<le> 222 \<and> n \<noteq> 215)
      then char_of (n + 32) else c)"

definition toLowerCase :: "string \<Rightarrow> string" where
  "toLowerCase s = map lower_char s"

definition trimStart :: "string \<Rightarrow> string" where
  "trimStart s = dropWhile is_space s"

definition trimEnd :: "string \<Rightarrow> string" where
  "trimEnd s = rev (dropWhile is_space (rev s))"

definition trim :: "string \<Rightarrow> string" where
  "trim s = trimEnd (trimStart s)"

fun startsWith :: "string \<Rightarrow> string \<Rightarrow> bool" where
  "startsWith s [] = True"
| "startsWith [] (p # ps) = False"
| "startsWith (c # cs) (p # ps) = (c = p \<and> startsWith cs ps)"

definition endsWith :: "string \<Rightarrow> string \<Rightarrow> bool" where
  "endsWith s p = startsWith (rev s) (rev p)"

text \<open>\<open>s.slice(1, -1)\<close>: without the first and the last code unit; empty when \<open>s\<close> has
  fewer than two.\<close>

definition slice_1_m1 :: "string \<Rightarrow> string" where
  "slice_1_m1 s = butlast (tl s)"

text \<open>\<open>s.split(c)\<close> for a separator of one code unit: never an empty list.\<close>

fun split_char :: "char \<Rightarrow> string \<Rightarrow> string list" where
  "split_char d [] = [[]]"
| "split_char d (c # cs) =
     (case split_char d cs of
        [] \<Rightarrow> [[c]]
      | p # ps \<Rightarrow> if c = d then [] # p # ps else (c # p) # ps)"

text \<open>\<open>parts.join(sep)\<close>.\<close>

fun join :: "string \<Rightarrow> string list \<Rightarrow> string" where
  "join sep [] = []"
| "join sep [p] = p"
| "join sep (p # q # ps) = p @ sep @ join sep (q # ps)"

section \<open>Regular expressions: a backtracking matcher\<close>

text \<open>
  The patterns of the program are written as terms of \<open>regex\<close>, one constructor per
  construct of the pattern syntax the program uses.  \<open>Rep mn mx g r\<close> is \<open>r{mn,mx}\<close>
  (\<open>mx = None\<close>: no upper bound), greedy when \<open>g\<close>, lazy otherwise.
\<close>

datatype regex =
    Eps
  | Chr char
  | Cls "char \<Rightarrow> bool"
  | Seq regex regex
  | Alt regex regex
  | Rep nat "nat option" bool regex
  | Grp nat regex
  | Bol
  | Eol

abbreviation Star :: "regex \<Rightarrow> regex" where "Star r \<equiv> Rep 0 None True r"
abbreviation Plus :: "regex \<Rightarrow> regex" where "Plus r \<equiv> Rep 1 None True r"
abbreviation Opt :: "regex \<Rightarrow> regex" where "Opt r \<equiv> Rep 0 (Some 1) True r"
abbreviation LazyStar :: "regex \<Rightarrow> regex" where "LazyStar r \<equiv> Rep 0 None False r"

text \<open>A literal run of characters.\<close>

fun Lit :: "string \<Rightarrow> regex" where
  "Lit [] = Eps"
| "Lit [c] = Chr c"
| "Lit (c # cs) = Seq (Chr c) (Lit cs)"

text \<open>
  The matcher's state: the input before the current position (reversed, nearest first),
  the input from the current position on, and the captures so far.
\<close>

record mstate =
  seen :: string
  todo :: string
  caps :: "nat \<Rightarrow> string option"

fun rsize :: "regex \<Rightarrow> nat" where
  "rsize (Seq a b) = Suc (rsize a + rsize b)"
| "rsize (Alt a b) = Suc (rsize a + rsize b)"
| "rsize (Rep mn mx g r) = Suc (rsize r)"
| "rsize (Grp n r) = Suc (rsize r)"
| "rsize r = 0"

fun rmin :: "regex \<Rightarrow> nat" where
  "rmin (Rep mn mx g r) = mn"
| "rmin r = 0"

fun groups :: "regex \<Rightarrow> nat list" where
  "groups (Seq a b) = groups a @ groups b"
| "groups (Alt a b) = groups a @ groups b"
| "groups (Rep mn mx g r) = groups r"
| "groups (Grp n r) = n # groups r"
| "groups r = []"

text \<open>Every pass through a quantified term starts with the term's own captures undefined.\<close>

definition clear :: "regex \<Rightarrow> mstate \<Rightarrow> mstate" where
  "clear r s = (if groups r = [] then s
                else s\<lparr>caps := (\<lambda>n. if n \<in> set (groups r) then None else caps s n)\<rparr>)"

definition dec :: "nat option \<Rightarrow> nat option" where
  "dec mx = (case mx of None \<Rightarrow> None | Some n \<Rightarrow> Some (n - 1))"

definition at_bol :: "bool \<Rightarrow> mstate \<Rightarrow> bool" where
  "at_bol ml s = (case seen s of [] \<Rightarrow> True | c # _ \<Rightarrow> ml \<and> is_lt c)"

definition at_eol :: "bool \<Rightarrow> mstate \<Rightarrow> bool" where
  "at_eol ml s = (case todo s of [] \<Rightarrow> True | c # _ \<Rightarrow> ml \<and> is_lt c)"

text \<open>
  \<open>matcher ml r s k\<close>: match \<open>r\<close> at state \<open>s\<close> and hand every end state, in the order
  of the pattern's priorities, to the continuation \<open>k\<close>; the first one \<open>k\<close> accepts is
  the result.  \<open>ml\<close> is the multiline flag.  A pass of a quantifier with minimum 0 that
  consumes nothing is refused, as the language specifies.
\<close>

function matcher :: "bool \<Rightarrow> regex \<Rightarrow> mstate \<Rightarrow> (mstate \<Rightarrow> mstate option) \<Rightarrow> mstate option" where
  "matcher ml Eps s k = k s"
| "matcher ml (Chr c) s k =
     (case todo s of [] \<Rightarrow> None
      | x # xs \<Rightarrow> if x = c then k (s\<lparr>seen := x # seen s, todo := xs\<rparr>) else None)"
| "matcher ml (Cls P) s k =
     (case todo s of [] \<Rightarrow> None
      | x # xs \<Rightarrow> if P x then k (s\<lparr>seen := x # seen s, todo := xs\<rparr>) else None)"
| "matcher ml (Seq a b) s k = matcher ml a s (\<lambda>s'. matcher ml b s' k)"
| "matcher ml (Alt a b) s k =
     (case matcher ml a s k of Some t \<Rightarrow> Some t | None \<Rightarrow> matcher ml b s k)"
| "matcher ml (Grp n r) s k =
     matcher ml r s
       (\<lambda>s'. k (s'\<lparr>caps := (caps s')(n := Some (take (length (todo s) - length (todo s')) (todo s)))\<rparr>))"
| "matcher ml Bol s k = (if at_bol ml s then k s else None)"
| "matcher ml Eol s k = (if at_eol ml s then k s else None)"
| "matcher ml (Rep mn mx g r) s k =
     (if mx = Some 0 then k s
      else if 0 < mn then
        matcher ml r (clear r s) (\<lambda>s'. matcher ml (Rep (mn - 1) (dec mx) g r) s' k)
      else if g then
        (case matcher ml r (clear r s)
                (\<lambda>s'. if length (todo s') < length (todo s)
                       then matcher ml (Rep 0 (dec mx) g r) s' k else None) of
           Some t \<Rightarrow> Some t
         | None \<Rightarrow> k s)
      else
        (case k s of
           Some t \<Rightarrow> Some t
         | None \<Rightarrow>
             matcher ml r (clear r s)
               (\<lambda>s'. if length (todo s') < length (todo s)
                      then matcher ml (Rep 0 (dec mx) g r) s' k else None)))"
  by pat_completeness auto
termination
  by (relation "measures [\<lambda>(ml, r, s, k). rsize r, \<lambda>(ml, r, s, k). rmin r,
                          \<lambda>(ml, r, s, k). length (todo s)]") auto

text \<open>One attempt at the position after \<open>bef\<close> (reversed), with no capture defined.\<close>

definition match_at :: "bool \<Rightarrow> regex \<Rightarrow> string \<Rightarrow> string \<Rightarrow> mstate option" where
  "match_at ml r bef text = matcher ml r \<lparr>seen = bef, todo = text, caps = (\<lambda>_. None)\<rparr> Some"

text \<open>A capture as the replacement sees it: an undefined one is the empty string.\<close>

definition cap :: "mstate \<Rightarrow> nat \<Rightarrow> string" where
  "cap s n = (case caps s n of None \<Rightarrow> [] | Some v \<Rightarrow> v)"

text \<open>
  \<open>text.replace(r, f)\<close> for a global pattern: the matches are looked for from left to
  right, each search starting where the last match ended (one code unit further after an
  empty match); \<open>f\<close> gets the matched text and the end state of the match.
\<close>

function replace_all :: "bool \<Rightarrow> regex \<Rightarrow> (string \<Rightarrow> mstate \<Rightarrow> string) \<Rightarrow> string \<Rightarrow> string \<Rightarrow> string" where
  "replace_all ml r f bef text =
     (case match_at ml r bef text of
        Some e \<Rightarrow>
          if length (todo e) < length text
          then f (take (length text - length (todo e)) text) e
               @ replace_all ml r f (rev (take (length text - length (todo e)) text) @ bef) (todo e)
          else f [] e @ (case text of [] \<Rightarrow> []
                         | c # cs \<Rightarrow> c # replace_all ml r f (c # bef) cs)
      | None \<Rightarrow>
          (case text of [] \<Rightarrow> []
           | c # cs \<Rightarrow> c # replace_all ml r f (c # bef) cs))"
  by pat_completeness auto
termination
  by (relation "measure (\<lambda>(ml, r, f, bef, text). length text)") auto

text \<open>The first match of a pattern without the global flag: the text before it and the
  end state.\<close>

fun exec :: "bool \<Rightarrow> regex \<Rightarrow> string \<Rightarrow> string \<Rightarrow> (string \<times> mstate) option" where
  "exec ml r bef [] =
     (case match_at ml r bef [] of Some e \<Rightarrow> Some (rev bef, e) | None \<Rightarrow> None)"
| "exec ml r bef (c # cs) =
     (case match_at ml r bef (c # cs) of
        Some e \<Rightarrow> Some (rev bef, e)
      | None \<Rightarrow> exec ml r (c # bef) cs)"

text \<open>\<open>text.replace(r, rep)\<close> for a pattern without the global flag: the first match only.\<close>

definition replace_first :: "bool \<Rightarrow> regex \<Rightarrow> string \<Rightarrow> string \<Rightarrow> string" where
  "replace_first ml r rep text =
     (case exec ml r [] text of None \<Rightarrow> text | Some (pre, e) \<Rightarrow> pre @ rep @ todo e)"


text \<open>
  \<open>text.split(r)\<close> for a pattern without groups: at each position the pattern is tried
  there only; an empty match at the start of the current piece is passed over; \<open>cur\<close> is
  the current piece, reversed.
\<close>

function split_loop :: "bool \<Rightarrow> regex \<Rightarrow> string \<Rightarrow> string \<Rightarrow> string \<Rightarrow> string list" where
  "split_loop ml r bef text cur =
     (case text of
        [] \<Rightarrow> [rev cur]
      | c # cs \<Rightarrow>
          (case match_at ml r bef text of
             None \<Rightarrow> split_loop ml r (c # bef) cs (c # cur)
           | Some e \<Rightarrow>
               if length (todo e) < length text
               then rev cur # split_loop ml r (rev (take (length text - length (todo e)) text) @ bef) (todo e) []
               else if cur = [] then split_loop ml r (c # bef) cs (c # cur)
               else rev cur # split_loop ml r bef text []))"
  by pat_completeness auto
termination
  by (relation "measure (\<lambda>(ml, r, bef, text, cur). 2 * length text + (if cur = [] then 0 else 1))") auto

definition split_regex :: "bool \<Rightarrow> regex \<Rightarrow> string \<Rightarrow> string list" where
  "split_regex ml r text =
     (if text = [] then (case match_at ml r [] [] of Some e \<Rightarrow> [] | None \<Rightarrow> [[]])
      else split_loop ml r [] text [])"

section \<open>The pattern table\<close>

fun Seqs :: "regex list \<Rightarrow> regex" where
  "Seqs [] = Eps"
| "Seqs [r] = r"
| "Seqs (r # rs) = Seq r (Seqs rs)"

text \<open>\<open>.\<close> and \<open>[\s\S]\<close>.\<close>

definition Dot :: regex where
  "Dot = Cls (\<lambda>c. \<not> is_lt c)"

definition AnyChar :: regex where
  "AnyChar = Cls (\<lambda>c. is_space c \<or> \<not> is_space c)"

text \<open>\<open>/^---\r?\n([\s\S]*?)\r?\n---\r?\n?/\<close>\<close>

definition frontmatter_pat :: regex where
  "frontmatter_pat =
     Seqs [Bol, Lit ''---'', Opt (Chr CR), Chr LF, Grp 1 (LazyStar AnyChar),
           Opt (Chr CR), Chr LF, Lit ''---'', Opt (Chr CR), Opt (Chr LF)]"

text \<open>\<open>/^(#{1,6})\s+(.+)/gm\<close>\<close>

definition heading_pat :: regex where
  "heading_pat =
     Seqs [Bol, Grp 1 (Rep 1 (Some 6) True (Chr CHR ''#'')), Plus (Cls is_space), Grp 2 (Plus Dot)]"

text \<open>\<open>/\*\*(.*?)\*\*/g\<close>\<close>

definition bold_pat :: regex where
  "bold_pat = Seqs [Lit ''**'', Grp 1 (LazyStar Dot), Lit ''**'']"

text \<open>\<open>/_(.*?)_/g\<close>\<close>

definition italic_pat :: regex where
  "italic_pat = Seqs [Chr CHR ''_'', Grp 1 (LazyStar Dot), Chr CHR ''_'']"

text \<open>\<open>/\[([^\]]+)\]\(([^)]+)\)/g\<close>\<close>

definition link_pat :: regex where
  "link_pat =
     Seqs [Chr CHR ''['', Grp 1 (Plus (Cls (\<lambda>c. c \<noteq> CHR '']''))), Chr CHR '']'',
           Chr CHR ''('', Grp 2 (Plus (Cls (\<lambda>c. c \<noteq> CHR '')''))), Chr CHR '')'']"

text \<open>\<open>/!\[([^\]]*)\]\(([^)]+)\)/g\<close>\<close>

definition image_pat :: regex where
  "image_pat =
     Seqs [Chr CHR ''!'', Chr CHR ''['', Grp 1 (Star (Cls (\<lambda>c. c \<noteq> CHR '']''))), Chr CHR '']'',
           Chr CHR ''('', Grp 2 (Plus (Cls (\<lambda>c. c \<noteq> CHR '')''))), Chr CHR '')'']"

text \<open>\<open>/```(\w+)?\n?([\s\S]*?)\n?```/g\<close>\<close>

definition codeBlock_pat :: regex where
  "codeBlock_pat =
     Seqs [Lit ''```'', Opt (Grp 1 (Plus (Cls is_word))), Opt (Chr LF),
           Grp 2 (LazyStar AnyChar), Opt (Chr LF), Lit ''```'']"

text \<open>\<open>/`([^`]+)`/g\<close>\<close>

definition inlineCode_pat :: regex where
  "inlineCode_pat =
     Seqs [Chr CHR ''`'', Grp 1 (Plus (Cls (\<lambda>c. c \<noteq> CHR ''`''))), Chr CHR ''`'']"

text \<open>\<open>/\n\s*\n/\<close>: the table's \<open>lineBreak\<close> and the separator of the paragraph pass.\<close>

definition lineBreak_pat :: regex where
  "lineBreak_pat = Seqs [Chr LF, Star (Cls is_space), Chr LF]"

text \<open>\<open>/^---+$/gm\<close>\<close>

definition horizontalRule_pat :: regex where
  "horizontalRule_pat = Seqs [Bol, Lit ''--'', Plus (Chr CHR ''-''), Eol]"

text \<open>\<open>/[&<>"']/g\<close>\<close>

definition escape_pat :: regex where
  "escape_pat =
     Cls (\<lambda>c. c = CHR ''&'' \<or> c = CHR ''<'' \<or> c = CHR ''>'' \<or> c = DQ \<or> c = SQ)"

section \<open>The passes of the pipeline\<close>

text \<open>A number as the template literal prints it (the number of \<open>#\<close> of a heading).\<close>

fun str_of_nat :: "nat \<Rightarrow> string" where
  "str_of_nat n =
     (if n < 10 then [char_of (48 + n)]
      else str_of_nat (n div 10) @ [char_of (48 + n mod 10)])"

definition heading_html :: "string \<Rightarrow> mstate \<Rightarrow> string" where
  "heading_html matched e =
     (let level = length (cap e 1) in
      ''<h'' @ str_of_nat level @ ''>'' @ trim (cap e 2) @ ''</h'' @ str_of_nat level @ ''>'')"

definition parseHeadings :: "string \<Rightarrow> string" where
  "parseHeadings text = replace_all True heading_pat heading_html [] text"

definition parseBold :: "string \<Rightarrow> string" where
  "parseBold text =
     replace_all False bold_pat (\<lambda>matched e. ''<strong>'' @ cap e 1 @ ''</strong>'') [] text"

definition parseItalic :: "string \<Rightarrow> string" where
  "parseItalic text =
     replace_all False italic_pat (\<lambda>matched e. ''<em>'' @ cap e 1 @ ''</em>'') [] text"

definition parseLinks :: "string \<Rightarrow> string" where
  "parseLinks text =
     replace_all False link_pat
       (\<lambda>matched e. ''<a href='' @ [DQ] @ cap e 2 @ [DQ] @ ''>'' @ cap e 1 @ ''</a>'') [] text"

definition parseImages :: "string \<Rightarrow> string" where
  "parseImages text =
     replace_all False image_pat
       (\<lambda>matched e. ''<img src='' @ [DQ] @ cap e 2 @ [DQ] @ '' alt='' @ [DQ] @ cap e 1 @ [DQ] @ '' />'')
       [] text"

text \<open>The entity of a matched character; a key the table lacks prints as \<open>undefined\<close>.\<close>

definition htmlEntities :: "string \<Rightarrow> string" where
  "htmlEntities ch =
     (if ch = ''&'' then ''&amp;''
      else if ch = ''<'' then ''&lt;''
      else if ch = ''>'' then ''&gt;''
      else if ch = [DQ] then ''&quot;''
      else if ch = [SQ] then ''&#39;''
      else ''undefined'')"

definition escapeHtml :: "string \<Rightarrow> string" where
  "escapeHtml text = replace_all False escape_pat (\<lambda>matched e. htmlEntities matched) [] text"

definition codeBlock_html :: "string \<Rightarrow> mstate \<Rightarrow> string" where
  "codeBlock_html matched e =
     (let language = (if cap e 1 \<noteq> [] then '' class='' @ [DQ] @ ''language-'' @ cap e 1 @ [DQ] else [])
      in ''<pre><code'' @ language @ ''>'' @ escapeHtml (trim (cap e 2)) @ ''</code></pre>'')"

definition parseCodeBlocks :: "string \<Rightarrow> string" where
  "parseCodeBlocks text = replace_all False codeBlock_pat codeBlock_html [] text"

definition parseInlineCode :: "string \<Rightarrow> string" where
  "parseInlineCode text =
     replace_all False inlineCode_pat (\<lambda>matched e. ''<code>'' @ cap e 1 @ ''</code>'') [] text"

definition parseHorizontalRules :: "string \<Rightarrow> string" where
  "parseHorizontalRules text =
     replace_all True horizontalRule_pat (\<lambda>matched e. ''<hr />'') [] text"

definition wrap_paragraph :: "string \<Rightarrow> string" where
  "wrap_paragraph paragraph =
     (let trimmed = trim paragraph in
      if trimmed = [] then []
      else if startsWith trimmed ''<'' \<and> endsWith trimmed ''>'' then trimmed
      else ''<p>'' @ trimmed @ ''</p>'')"

definition parseParagraphs :: "string \<Rightarrow> string" where
  "parseParagraphs text =
     join [LF, LF]
       (filter (\<lambda>p. p \<noteq> []) (map wrap_paragraph (split_regex False lineBreak_pat text)))"

text \<open>The passes in the order \<open>parse\<close> applies them, on a non-empty string.\<close>

definition render :: "string \<Rightarrow> string" where
  "render markdown =
     trim (parseParagraphs (parseHorizontalRules (parseItalic (parseBold (parseInlineCode
       (parseCodeBlocks (parseLinks (parseImages (parseHeadings markdown)))))))))"

section \<open>Values of the host language, and the entry points\<close>

text \<open>
  What a caller can pass.  \<open>JNumber\<close> stands for a number (only whether it is zero
  matters here), \<open>JStringObject\<close> for a string wrapped in an object (\<open>new String(s)\<close>:
  an object to \<open>typeof\<close> and to the truth test, with the string's methods), and
  \<open>JObject\<close> for any other object, array or function, one without string methods.
\<close>

datatype js_value =
    JUndefined
  | JNull
  | JBoolean bool
  | JNumber int
  | JString string
  | JStringObject string
  | JObject

datatype js_error = TypeError

definition falsy :: "js_value \<Rightarrow> bool" where
  "falsy v =
     (case v of JUndefined \<Rightarrow> True | JNull \<Rightarrow> True | JBoolean b \<Rightarrow> \<not> b
      | JNumber n \<Rightarrow> n = 0 | JString s \<Rightarrow> s = [] | JStringObject s \<Rightarrow> False
      | JObject \<Rightarrow> False)"

definition typeof_string :: "js_value \<Rightarrow> bool" where
  "typeof_string v = (case v of JString s \<Rightarrow> True | _ \<Rightarrow> False)"

text \<open>
  \<open>parse\<close>: past the guard the value is used as a string; calling a string method on
  anything else would raise \<open>TypeError\<close>.
\<close>

definition parse :: "js_value \<Rightarrow> js_error + string" where
  "parse markdown =
     (if falsy markdown \<or> \<not> typeof_string markdown then Inr []
      else (case markdown of JString s \<Rightarrow> Inr (render s) | _ \<Rightarrow> Inl TypeError))"

section \<open>Frontmatter\<close>

subsection \<open>Numbers read from strings\<close>

text \<open>
  The host's \<open>parseFloat\<close> reads the longest prefix of the string (leading white space
  skipped) that is a decimal literal: an optional sign, then \<open>Infinity\<close>, or digits with
  an optional fraction and an optional exponent.  The model keeps the literal read and
  leaves the floating-point value it denotes unevaluated; \<open>None\<close> is \<open>NaN\<close>.
\<close>

definition exponent_prefix :: "string \<Rightarrow> string" where
  "exponent_prefix s =
     (case s of
        [] \<Rightarrow> []
      | e # r \<Rightarrow>
          if e = CHR ''e'' \<or> e = CHR ''E'' then
            (case r of
               [] \<Rightarrow> []
             | g # r' \<Rightarrow>
                 if g = CHR ''+'' \<or> g = CHR ''-''
                 then (if takeWhile is_digit r' = [] then [] else e # g # takeWhile is_digit r')
                 else (if takeWhile is_digit r = [] then [] else e # takeWhile is_digit r))
          else [])"

definition unsigned_prefix :: "string \<Rightarrow> string option" where
  "unsigned_prefix s =
     (if startsWith s ''Infinity'' then Some ''Infinity''
      else
        (let d1 = takeWhile is_digit s; r1 = dropWhile is_digit s in
         case r1 of
           [] \<Rightarrow> if d1 = [] then None else Some d1
         | p # r2 \<Rightarrow>
             if p = CHR ''.'' then
               (let d2 = takeWhile is_digit r2; r3 = dropWhile is_digit r2 in
                if d1 = [] \<and> d2 = [] then None
                else Some (d1 @ ''.'' @ d2 @ exponent_prefix r3))
             else if d1 = [] then None
             else Some (d1 @ exponent_prefix r1)))"

definition decimal_prefix :: "string \<Rightarrow> string option" where
  "decimal_prefix s =
     (case s of
        [] \<Rightarrow> None
      | g # r \<Rightarrow>
          if g = CHR ''+'' \<or> g = CHR ''-''
          then map_option (\<lambda>u. g # u) (unsigned_prefix r)
          else unsigned_prefix s)"

definition parseFloat :: "string \<Rightarrow> string option" where
  "parseFloat s = decimal_prefix (trimStart s)"

definition is_hex_digit :: "char \<Rightarrow> bool" where
  "is_hex_digit c =
     (let n = (of_char c :: nat) in
      (48 \<le> n \<and> n \<le> 57) \<or> (65 \<le> n \<and> n \<le> 70) \<or> (97 \<le> n \<and> n \<le> 102))"

definition is_octal_digit :: "char \<Rightarrow> bool" where
  "is_octal_digit c = (let n = (of_char c :: nat) in 48 \<le> n \<and> n \<le> 55)"

definition is_binary_digit :: "char \<Rightarrow> bool" where
  "is_binary_digit c = (c = CHR ''0'' \<or> c = CHR ''1'')"

text \<open>The literals \<open>0x..\<close>, \<open>0o..\<close> and \<open>0b..\<close> (either case of the letter), which the
  conversion of a string to a number accepts beside the decimal ones.\<close>

definition non_decimal_literal :: "string \<Rightarrow> bool" where
  "non_decimal_literal s =
     (case s of
        z # x # ds \<Rightarrow>
          z = CHR ''0'' \<and> ds \<noteq> [] \<and>
          (((x = CHR ''x'' \<or> x = CHR ''X'') \<and> list_all is_hex_digit ds) \<or>
           ((x = CHR ''o'' \<or> x = CHR ''O'') \<and> list_all is_octal_digit ds) \<or>
           ((x = CHR ''b'' \<or> x = CHR ''B'') \<and> list_all is_binary_digit ds))
      | _ \<Rightarrow> False)"

text \<open>
  \<open>isNaN(s)\<close> for a string \<open>s\<close>: the string is converted to a number, which is \<open>NaN\<close>
  unless the string, white space at both ends apart, is empty, a whole decimal literal or a
  non-decimal integer literal.
\<close>

definition isNaN_string :: "string \<Rightarrow> bool" where
  "isNaN_string s =
     (let t = trim s in
      \<not> (t = [] \<or> decimal_prefix t = Some t \<or> non_decimal_literal t))"

subsection \<open>Values and lines\<close>

datatype fm_value =
    VString string
  | VNumber string
  | VBoolean bool
  | VArray "string list"

definition quoted :: "string \<Rightarrow> bool" where
  "quoted s = ((startsWith s [DQ] \<and> endsWith s [DQ]) \<or> (startsWith s [SQ] \<and> endsWith s [SQ]))"

definition array_item :: "string \<Rightarrow> string" where
  "array_item item = (let i = trim item in if quoted i then slice_1_m1 i else i)"

text \<open>The value of a line, from the trimmed text after the first colon.\<close>

definition coerce_value :: "string \<Rightarrow> fm_value" where
  "coerce_value v =
     (if startsWith v ''['' \<and> endsWith v '']'' then
        (let arrayContent = trim (slice_1_m1 v) in
         if arrayContent \<noteq> [] then VArray (map array_item (split_char CHR '','' arrayContent))
         else VArray [])
      else
        (let w = (if quoted v then slice_1_m1 v else v) in
         if w = ''true'' then VBoolean True
         else if w = ''false'' then VBoolean False
         else if \<not> isNaN_string w \<and> parseFloat w \<noteq> None then VNumber (the (parseFloat w))
         else VString w))"

fun indexOf :: "char \<Rightarrow> string \<Rightarrow> nat option" where
  "indexOf d [] = None"
| "indexOf d (c # cs) = (if c = d then Some 0 else map_option Suc (indexOf d cs))"

definition fm_line :: "string \<Rightarrow> (string \<times> fm_value) option" where
  "fm_line line =
     (case indexOf CHR '':'' line of
        None \<Rightarrow> None
      | Some colonIndex \<Rightarrow>
          Some (trim (take colonIndex line), coerce_value (trim (drop (colonIndex + 1) line))))"

text \<open>
  \<open>obj[key] = value\<close> on a plain object, as the own properties see it: the key
  \<open>__proto__\<close> is taken by the accessor every object inherits and makes no property.
\<close>

definition set_prop :: "(string \<rightharpoonup> fm_value) \<Rightarrow> string \<Rightarrow> fm_value \<Rightarrow> (string \<rightharpoonup> fm_value)" where
  "set_prop obj key v = (if key = ''__proto__'' then obj else obj(key \<mapsto> v))"

definition parseFrontmatter :: "string \<Rightarrow> (string \<rightharpoonup> fm_value)" where
  "parseFrontmatter frontmatterContent =
     foldl (\<lambda>fm line. case fm_line line of None \<Rightarrow> fm | Some (key, v) \<Rightarrow> set_prop fm key v)
       Map.empty (split_char LF (trim frontmatterContent))"

subsection \<open>Documents\<close>

record document =
  frontmatter :: "string \<rightharpoonup> fm_value"
  content :: string
  rawContent :: string

definition parseDocument :: "js_value \<Rightarrow> js_error + document" where
  "parseDocument markdownContent =
     (if falsy markdownContent \<or> \<not> typeof_string markdownContent
      then Inr \<lparr>frontmatter = Map.empty, content = [], rawContent = []\<rparr>
      else
        (case markdownContent of
           JString s \<Rightarrow>
             (let fm = (case exec False frontmatter_pat [] s of
                          None \<Rightarrow> Map.empty
                        | Some (pre, e) \<Rightarrow> parseFrontmatter (cap e 1));
                  c = (case exec False frontmatter_pat [] s of
                         None \<Rightarrow> s
                       | Some (pre, e) \<Rightarrow> trim (replace_first False frontmatter_pat [] s))
              in case parse (JString c) of
                   Inl err \<Rightarrow> Inl err
                 | Inr htmlContent \<Rightarrow> Inr \<lparr>frontmatter = fm, content = htmlContent, rawContent = c\<rparr>)
         | _ \<Rightarrow> Inl TypeError))"

section \<open>The slug generator\<close>

text \<open>The three patterns of \<open>createSlug\<close>:
  \<open>/[^\w\s-]/g\<close>, \<open>/[\s_-]+/g\<close> and \<open>/^-+|-+$/g\<close>.\<close>

definition slug_special :: regex where
  "slug_special = Cls (\<lambda>c. \<not> (is_word c \<or> is_space c \<or> c = CHR ''-''))"

definition slug_separators :: regex where
  "slug_separators = Plus (Cls (\<lambda>c. is_space c \<or> c = CHR ''_'' \<or> c = CHR ''-''))"

definition slug_edges :: regex where
  "slug_edges = Alt (Seq Bol (Plus (Chr CHR ''-''))) (Seq (Plus (Chr CHR ''-'')) Eol)"

definition slugify :: "string \<Rightarrow> string" where
  "slugify text =
     replace_all False slug_edges (\<lambda>matched e. []) []
       (replace_all False slug_separators (\<lambda>matched e. ''-'') []
          (replace_all False slug_special (\<lambda>matched e. []) []
             (trim (toLowerCase text))))"

text \<open>\<open>createSlug\<close>: a falsy argument gives the empty string; \<open>toLowerCase\<close> is then
  called on the argument, which a string and a wrapped string have; on any other value the
  call raises \<open>TypeError\<close>.\<close>

definition createSlug :: "js_value \<Rightarrow> js_error + string" where
  "createSlug text =
     (if falsy text then Inr []
      else (case text of
              JString s \<Rightarrow> Inr (slugify s)
            | JStringObject s \<Rightarrow> Inr (slugify s)
            | _ \<Rightarrow> Inl TypeError))"

section \<open>Notions used in the statements and proofs\<close>

text \<open>The state \<open>n\<close> code units further on.\<close>

definition adv :: "nat \<Rightarrow> mstate \<Rightarrow> mstate" where
  "adv n s = s\<lparr>seen := rev (take n (todo s)) @ seen s, todo := drop n (todo s)\<rparr>"

text \<open>The first candidate, in the order of the list, that the continuation accepts.\<close>

fun first_some :: "('a \<Rightarrow> 'b option) \<Rightarrow> 'a list \<Rightarrow> 'b option" where
  "first_some k [] = None"
| "first_some k (x # xs) = (case k x of Some t \<Rightarrow> Some t | None \<Rightarrow> first_some k xs)"

text \<open>The length of the longest prefix of characters of a class.\<close>

definition run :: "(char \<Rightarrow> bool) \<Rightarrow> string \<Rightarrow> nat" where
  "run P xs = length (takeWhile P xs)"

definition rep_top :: "nat option \<Rightarrow> nat \<Rightarrow> nat" where
  "rep_top mx n = (case mx of None \<Rightarrow> n | Some m \<Rightarrow> min m n)"

text \<open>A term that matches exactly one character, of the class \<open>P\<close>.\<close>

definition single :: "regex \<Rightarrow> (char \<Rightarrow> bool) \<Rightarrow> bool" where
  "single r P = (r = Cls P \<or> (\<exists>c. r = Chr c \<and> P = (\<lambda>x. x = c)))"

section \<open>The slug, as the specification words it\<close>

text \<open>A letter, a digit, an underscore, white space or a hyphen.\<close>

definition slug_keep :: "char \<Rightarrow> bool" where
  "slug_keep c =
     (is_upper c \<or> is_lower c \<or> is_digit c \<or> c = CHR ''_'' \<or> is_space c \<or> c = CHR ''-'')"

text \<open>White space, an underscore or a hyphen.\<close>

definition slug_sep :: "char \<Rightarrow> bool" where
  "slug_sep c = (is_space c \<or> c = CHR ''_'' \<or> c = CHR ''-'')"

text \<open>Every maximal run of characters of the class \<open>S\<close> becomes \<open>rep\<close>.\<close>

function collapse :: "(char \<Rightarrow> bool) \<Rightarrow> string \<Rightarrow> string \<Rightarrow> string" where
  "collapse S rep [] = []"
| "collapse S rep (c # cs) =
     (if S c then rep @ collapse S rep (dropWhile S cs) else c # collapse S rep cs)"
  by pat_completeness auto
termination
  by (relation "measure (\<lambda>(S, rep, cs). length cs)") (auto simp: length_dropWhile_le less_Suc_eq_le)

definition is_hyphen :: "char \<Rightarrow> bool" where
  "is_hyphen c = (c = CHR ''-'')"

definition strip_hyphens :: "string \<Rightarrow> string" where
  "strip_hyphens s = rev (dropWhile is_hyphen (rev (dropWhile is_hyphen s)))"

definition slug_spec :: "string \<Rightarrow> string" where
  "slug_spec s =
     strip_hyphens (collapse slug_sep ''-'' (filter slug_keep (trim (toLowerCase s))))"

text \<open>The shape of a slug: lower-case letters, digits and hyphens; no two hyphens in a
  row; no hyphen at either end.\<close>

definition slug_char :: "char \<Rightarrow> bool" where
  "slug_char c = (is_lower c \<or> is_digit c \<or> c = CHR ''-'')"

fun no_double_hyphen :: "string \<Rightarrow> bool" where
  "no_double_hyphen (x # y # zs) = (\<not> (x = CHR ''-'' \<and> y = CHR ''-'') \<and> no_double_hyphen (y # zs))"
| "no_double_hyphen zs = True"

definition slug_shape :: "string \<Rightarrow> bool" where
  "slug_shape t =
     (list_all slug_char t \<and> no_double_hyphen t \<and>
      (case t of [] \<Rightarrow> True | c # cs \<Rightarrow> c \<noteq> CHR ''-'' \<and> last t \<noteq> CHR ''-''))"

section \<open>Decimal literals, as the grammar of the language has them\<close>

text \<open>
  \<open>StrDecimalLiteral\<close>: an optional sign, then \<open>Infinity\<close>, or digits with an optional
  fraction (one of the two digit runs may be empty, not both) and an optional exponent,
  or digits with an optional exponent.
\<close>

definition is_sign :: "string \<Rightarrow> bool" where
  "is_sign sg = (sg = [] \<or> sg = ''+'' \<or> sg = ''-'')"

definition is_exponent_part :: "string \<Rightarrow> bool" where
  "is_exponent_part ex =
     (\<exists>e sg ds. ex = e # sg @ ds \<and> (e = CHR ''e'' \<or> e = CHR ''E'') \<and> is_sign sg \<and>
                ds \<noteq> [] \<and> list_all is_digit ds)"

definition is_unsigned_decimal :: "string \<Rightarrow> bool" where
  "is_unsigned_decimal u =
     (u = ''Infinity'' \<or>
      (\<exists>d1 d2 ex. list_all is_digit d1 \<and> list_all is_digit d2 \<and>
                  (ex = [] \<or> is_exponent_part ex) \<and>
                  ((u = d1 @ ''.'' @ d2 @ ex \<and> (d1 \<noteq> [] \<or> d2 \<noteq> [])) \<or>
                   (u = d1 @ ex \<and> d1 \<noteq> []))))"

definition is_decimal_literal :: "string \<Rightarrow> bool" where
  "is_decimal_literal s = (\<exists>sg u. s = sg @ u \<and> is_sign sg \<and> is_unsigned_decimal u)"

section \<open>Recognising the frontmatter block\<close>

text \<open>The branch \<open>parseDocument\<close> takes: whether the frontmatter pattern matches.\<close>

definition recognizes_frontmatter :: "string \<Rightarrow> bool" where
  "recognizes_frontmatter doc =
     (case exec False frontmatter_pat [] doc of None \<Rightarrow> False | Some m \<Rightarrow> True)"

text \<open>A line break as the pattern reads it: \<open>\r?\n\<close>.\<close>

definition is_newline :: "string \<Rightarrow> bool" where
  "is_newline nl = (nl = [LF] \<or> nl = [CR, LF])"

text \<open>
  The block told without the pattern.  \<open>closes t\<close>: the text \<open>t\<close> begins with a line break
  and \<open>---\<close>.  \<open>find_close t\<close>: the first position of \<open>t\<close> where that holds.
\<close>

definition closes :: "string \<Rightarrow> bool" where
  "closes t = (startsWith t (LF # ''---'') \<or> startsWith t (CR # LF # ''---''))"

fun find_close :: "string \<Rightarrow> nat option" where
  "find_close [] = None"
| "find_close (c # cs) = (if closes (c # cs) then Some 0 else map_option Suc (find_close cs))"

text \<open>The length of the line break and \<open>---\<close> that \<open>t\<close> begins with.\<close>

definition close_len :: "string \<Rightarrow> nat" where
  "close_len t = (if startsWith t [LF] then 4 else 5)"

text \<open>After the closing \<open>---\<close>: one CR, if there is one, then one LF, if there is one.\<close>

definition skip_len :: "string \<Rightarrow> nat" where
  "skip_len t =
     (if startsWith t [CR, LF] then 2
      else if startsWith t [CR] \<or> startsWith t [LF] then 1 else 0)"

text \<open>
  The body and the remainder of a text that follows the opening line: the body ends where
  the first line break with \<open>---\<close> after it begins, the remainder begins after that
  \<open>---\<close> and the line break right after it.
\<close>

definition block_from :: "string \<Rightarrow> (string \<times> string) option" where
  "block_from t =
     (case find_close t of
        None \<Rightarrow> None
      | Some j \<Rightarrow>
          (let u = drop (j + close_len (drop j t)) t
           in Some (take j t, drop (skip_len u) u)))"

text \<open>The body and the remainder of a document: the opening line is \<open>---\<close> and a line break.\<close>

definition frontmatter_block :: "string \<Rightarrow> (string \<times> string) option" where
  "frontmatter_block doc =
     (if startsWith doc (''---'' @ [CR, LF]) then block_from (drop 5 doc)
      else if startsWith doc (''---'' @ [LF]) then block_from (drop 4 doc)
      else None)"

section \<open>Where the heading pattern matches\<close>

text \<open>Whether the heading pattern matches at the position after \<open>bef\<close> (reversed).\<close>

definition heading_at :: "string \<Rightarrow> string \<Rightarrow> bool" where
  "heading_at bef inp =
     (case match_at True heading_pat bef inp of None \<Rightarrow> False | Some e \<Rightarrow> True)"

text \<open>The start of the input, or the position after a line terminator.\<close>

definition line_start :: "string \<Rightarrow> bool" where
  "line_start bef = (case bef of [] \<Rightarrow> True | c # cs \<Rightarrow> is_lt c)"

definition is_hash :: "char \<Rightarrow> bool" where
  "is_hash c = (c = CHR ''#'')"

definition not_lt :: "char \<Rightarrow> bool" where
  "not_lt c = (\<not> is_lt c)"

section \<open>Rewriting every match, from left to right\<close>

text \<open>
  What a pass does, told without the pattern: \<open>step prev inp\<close> says whether a match
  starts at the head of \<open>inp\<close>, the character before it being \<open>prev\<close>, and if so gives
  the text written for the match and the input left after it.  The search goes on after
  each match; where none starts, the character is kept.
\<close>

function rewrite :: "(char option \<Rightarrow> string \<Rightarrow> (string \<times> string) option) \<Rightarrow> char option \<Rightarrow> string \<Rightarrow> string" where
  "rewrite step prev inp =
     (case step prev inp of
        Some (out, rest) \<Rightarrow>
          if length rest < length inp
          then out @ rewrite step (Some (inp ! (length inp - length rest - 1))) rest
          else out @ (case inp of [] \<Rightarrow> [] | c # cs \<Rightarrow> c # rewrite step (Some c) cs)
      | None \<Rightarrow> (case inp of [] \<Rightarrow> [] | c # cs \<Rightarrow> c # rewrite step (Some c) cs))"
  by pat_completeness auto
termination
  by (relation "measure (\<lambda>(step, prev, inp). length inp)") auto

text \<open>The character before a position, from the input before it (reversed).\<close>

definition prev_of :: "string \<Rightarrow> char option" where
  "prev_of bef = (case bef of [] \<Rightarrow> None | c # cs \<Rightarrow> Some c)"

section \<open>The headings pass, told without the pattern\<close>

text \<open>
  The white space of a heading: of the first \<open>w\<close> characters of \<open>t\<close>, the longest run of
  at least one after which a character follows that is no line terminator.
\<close>

fun give_back :: "nat \<Rightarrow> string \<Rightarrow> nat option" where
  "give_back 0 t = None"
| "give_back (Suc i) t =
     (if 0 < run not_lt (drop (Suc i) t) then Some (Suc i) else give_back i t)"

text \<open>
  A heading at the head of \<open>inp\<close>: 1 to 6 \<open>#\<close> (and no seventh), white space as above
  (line breaks are white space), and as content the characters up to the next line
  terminator.  The result is the level, the content and the input after the content.
\<close>

definition heading_parts :: "string \<Rightarrow> (nat \<times> string \<times> string) option" where
  "heading_parts inp =
     (let n = run is_hash inp; t = drop n inp in
      if 1 \<le> n \<and> n \<le> 6 then
        (case give_back (run is_space t) t of
           None \<Rightarrow> None
         | Some i \<Rightarrow> Some (n, takeWhile not_lt (drop i t), dropWhile not_lt (drop i t)))
      else None)"

text \<open>A heading is looked for at the start of the input and after a line terminator.\<close>

definition heading_step :: "char option \<Rightarrow> string \<Rightarrow> (string \<times> string) option" where
  "heading_step prev inp =
     (if (case prev of None \<Rightarrow> True | Some c \<Rightarrow> is_lt c) then
        (case heading_parts inp of
           None \<Rightarrow> None
         | Some (n, cont, rest) \<Rightarrow>
             Some (''<h'' @ str_of_nat n @ ''>'' @ trim cont @ ''</h'' @ str_of_nat n @ ''>'', rest))
      else None)"

section \<open>The code passes, told without the patterns\<close>

text \<open>The escaper, character by character.\<close>

definition entity :: "char \<Rightarrow> string" where
  "entity c =
     (if c = CHR ''&'' then ''&amp;''
      else if c = CHR ''<'' then ''&lt;''
      else if c = CHR ''>'' then ''&gt;''
      else if c = DQ then ''&quot;''
      else if c = SQ then ''&#39;''
      else [c])"

definition not_tick :: "char \<Rightarrow> bool" where
  "not_tick c = (c \<noteq> CHR ''`'')"

text \<open>
  \<open>fence_closes t\<close>: the text \<open>t\<close> begins with the closing fence, or with a line feed and
  the closing fence.  \<open>find_fence t\<close>: the first position of \<open>t\<close> where that holds.
  \<open>fence_len t\<close>: the length of what \<open>t\<close> begins with there.
\<close>

definition fence_closes :: "string \<Rightarrow> bool" where
  "fence_closes t = (startsWith t (LF # ''```'') \<or> startsWith t ''```'')"

fun find_fence :: "string \<Rightarrow> nat option" where
  "find_fence [] = None"
| "find_fence (c # cs) = (if fence_closes (c # cs) then Some 0 else map_option Suc (find_fence cs))"

definition fence_len :: "string \<Rightarrow> nat" where
  "fence_len t = (if startsWith t [LF] then 4 else 3)"

text \<open>
  A fenced block at the current position: the opening fence, the word characters right
  after it (the language tag, if there are any), one line feed if there is one, the body
  up to the first closing fence, and that fence.  The body is trimmed and escaped.
\<close>

definition code_step :: "char option \<Rightarrow> string \<Rightarrow> (string \<times> string) option" where
  "code_step prev inp =
     (if startsWith inp ''```'' then
        (let lang = takeWhile is_word (drop 3 inp);
             t1 = dropWhile is_word (drop 3 inp);
             t2 = (if startsWith t1 [LF] then drop 1 t1 else t1)
         in case find_fence t2 of
              None \<Rightarrow> None
            | Some j \<Rightarrow>
                Some (''<pre><code'' @
                      (if lang \<noteq> [] then '' class='' @ [DQ] @ ''language-'' @ lang @ [DQ] else []) @
                      ''>'' @ concat (map entity (trim (take j t2))) @ ''</code></pre>'',
                      drop (j + fence_len (drop j t2)) t2))
      else None)"

text \<open>
  Inline code at the current position: a backtick, at least one character that is no
  backtick, and a backtick.  The text between them is put out as it is.
\<close>

definition inline_step :: "char option \<Rightarrow> string \<Rightarrow> (string \<times> string) option" where
  "inline_step prev inp =
     (if startsWith inp ''`'' then
        (let c = takeWhile not_tick (drop 1 inp);
             r = dropWhile not_tick (drop 1 inp)
         in if c \<noteq> [] \<and> startsWith r ''`''
            then Some (''<code>'' @ c @ ''</code>'', drop 1 r)
            else None)
      else None)"
section \<open>The matcher on repetitions of one character\<close>

lemma adv_0 [simp]: "adv 0 s = s"
  by (simp add: adv_def)

lemma adv_adv [simp]: "adv i (adv j s) = adv (j + i) s"
proof -
  have "take (j + i) (todo s) = take j (todo s) @ take i (drop j (todo s))"
    by (simp add: take_add)
  moreover have "drop i (drop j (todo s)) = drop (j + i) (todo s)"
    by (simp add: add.commute)
  ultimately show ?thesis
    by (simp add: adv_def)
qed

lemma todo_adv [simp]: "todo (adv n s) = drop n (todo s)"
  by (simp add: adv_def)

lemma seen_adv [simp]: "seen (adv n s) = rev (take n (todo s)) @ seen s"
  by (simp add: adv_def)

lemma caps_adv [simp]: "caps (adv n s) = caps s"
  by (simp add: adv_def)

lemma step_adv: "todo s = x # xs \<Longrightarrow> s\<lparr>seen := x # seen s, todo := xs\<rparr> = adv 1 s"
  by (simp add: adv_def)

lemma first_some_append:
  "first_some k (xs @ ys) = (case first_some k xs of Some t \<Rightarrow> Some t | None \<Rightarrow> first_some k ys)"
  by (induction xs) (auto split: option.splits)

lemma single_matcher:
  "single r P \<Longrightarrow> matcher ml r s k =
     (case todo s of [] \<Rightarrow> None | x # xs \<Rightarrow> if P x then k (adv 1 s) else None)"
  by (auto simp: single_def adv_def split: list.splits)

lemma single_clear [simp]: "single r P \<Longrightarrow> clear r s = s"
  by (auto simp: single_def clear_def)

lemma rep_top_Suc: "mx \<noteq> Some 0 \<Longrightarrow> rep_top mx (Suc n) = Suc (rep_top (dec mx) n)"
  by (cases mx) (auto simp: rep_top_def dec_def)

lemma map_adv_shift:
  "map (\<lambda>j. adv j (adv 1 s)) [a..<b] = map (\<lambda>j. adv j s) [Suc a..<Suc b]"
proof -
  have "map (\<lambda>j. adv j s) [Suc a..<Suc b] = map (\<lambda>j. adv j s) (map Suc [a..<b])"
    by (simp only: map_Suc_upt)
  then show ?thesis
    by (simp add: o_def)
qed



declare matcher.simps(9) [simp del]

lemma single_groups: "single r P \<Longrightarrow> groups r = []"
  by (auto simp: single_def)

lemma rep_single_step:
  assumes r: "single r P"
  shows "matcher ml (Rep mn mx g r) s k =
     (if mx = Some 0 then k s
      else if 0 < mn then
        (case todo s of [] \<Rightarrow> None
         | x # xs \<Rightarrow> if P x then matcher ml (Rep (mn - 1) (dec mx) g r) (adv 1 s) k else None)
      else if g then
        (case (case todo s of [] \<Rightarrow> None
               | x # xs \<Rightarrow> if P x then matcher ml (Rep 0 (dec mx) g r) (adv 1 s) k else None) of
           Some t \<Rightarrow> Some t
         | None \<Rightarrow> k s)
      else
        (case k s of
           Some t \<Rightarrow> Some t
         | None \<Rightarrow>
            (case todo s of [] \<Rightarrow> None
             | x # xs \<Rightarrow> if P x then matcher ml (Rep 0 (dec mx) g r) (adv 1 s) k else None)))"
proof -
  have c: "clear r s = s"
    using single_groups [OF r] by (simp add: clear_def)
  have it0: "matcher ml r (clear r s)
        (\<lambda>s'. if length (todo s') < length (todo s)
               then matcher ml (Rep 0 (dec mx) g r) s' k else None) =
      (case todo s of [] \<Rightarrow> None
       | x # xs \<Rightarrow> if P x then matcher ml (Rep 0 (dec mx) g r) (adv 1 s) k else None)"
    by (simp add: c single_matcher [OF r] split: list.splits)
  have it1: "matcher ml r (clear r s) (\<lambda>s'. matcher ml (Rep (mn - 1) (dec mx) g r) s' k) =
      (case todo s of [] \<Rightarrow> None
       | x # xs \<Rightarrow> if P x then matcher ml (Rep (mn - 1) (dec mx) g r) (adv 1 s) k else None)"
    by (simp add: c single_matcher [OF r] split: list.splits)
  show ?thesis
    by (subst matcher.simps(9)) (simp only: it0 it1)
qed

lemma rep_single:
  assumes r: "single r P"
  shows "(case mx of None \<Rightarrow> True | Some m \<Rightarrow> mn \<le> m) \<Longrightarrow>
     matcher ml (Rep mn mx g r) s k =
       first_some k (map (\<lambda>j. adv j s)
         ((if g then rev else id) [mn..<Suc (rep_top mx (run P (todo s)))]))"
proof (induction "todo s" arbitrary: s mn mx)
  case Nil
  have t: "rep_top mx (run P (todo s)) = 0"
    using Nil(1) [symmetric] by (cases mx) (simp_all add: rep_top_def run_def)
  show ?case
    unfolding t using Nil(1) [symmetric] Nil(2)
    by (subst rep_single_step [OF r]) (auto split: option.splits)
next
  case (Cons x xs)
  note td = Cons(2) [symmetric]
  show ?case
  proof (cases "mx = Some 0")
    case True
    with Cons(3) have "mn = 0" by simp
    moreover have "rep_top mx (run P (todo s)) = 0"
      using True by (simp add: rep_top_def)
    ultimately show ?thesis using True
      by (subst rep_single_step [OF r]) (simp split: option.splits)
  next
    case nz: False
    show ?thesis
    proof (cases "P x")
      case False
      have t: "rep_top mx (run P (todo s)) = 0"
        using False td by (cases mx) (simp_all add: rep_top_def run_def)
      show ?thesis
        unfolding t using nz False td
        by (subst rep_single_step [OF r]) (auto split: option.splits)
    next
      case True
      have tl: "xs = todo (adv 1 s)"
        using td by simp
      have rn: "run P (todo s) = Suc (run P (todo (adv 1 s)))"
        using True td by (simp add: run_def)
      have bd: "case dec mx of None \<Rightarrow> True | Some m \<Rightarrow> mn - 1 \<le> m"
        using Cons(3) by (cases mx) (auto simp: dec_def)
      note ih = Cons(1) [OF tl bd]
      have tp: "rep_top mx (run P (todo s)) = Suc (rep_top (dec mx) (run P (todo (adv 1 s))))"
        by (simp only: rn rep_top_Suc [OF nz])
      show ?thesis
      proof (cases "0 < mn")
        case pos: True
        then have sh: "[mn..<Suc (Suc (rep_top (dec mx) (run P (todo (adv 1 s)))))]
             = map Suc [mn - 1..<Suc (rep_top (dec mx) (run P (todo (adv 1 s))))]"
          by (simp only: map_Suc_upt) simp
        have "matcher ml (Rep mn mx g r) s k = matcher ml (Rep (mn - 1) (dec mx) g r) (adv 1 s) k"
          using nz pos True td by (subst rep_single_step [OF r]) simp
        also have "\<dots> = first_some k (map (\<lambda>j. adv j (adv 1 s))
           ((if g then rev else id) [mn - 1..<Suc (rep_top (dec mx) (run P (todo (adv 1 s))))]))"
          by (rule ih)
        also have "\<dots> = first_some k (map (\<lambda>j. adv j s)
           ((if g then rev else id) [mn..<Suc (rep_top mx (run P (todo s)))]))"
          unfolding tp sh by (simp add: o_def rev_map)
        finally show ?thesis .
      next
        case z: False
        then have mn0: "mn = 0" by simp
        have sh: "[0..<Suc (Suc (rep_top (dec mx) (run P (todo (adv 1 s)))))]
             = 0 # map Suc [0..<Suc (rep_top (dec mx) (run P (todo (adv 1 s))))]"
          by (simp only: map_Suc_upt) (simp add: upt_rec)
        have inner: "matcher ml (Rep 0 (dec mx) g r) (adv 1 s) k
            = first_some k (map (\<lambda>j. adv j (adv 1 s))
                ((if g then rev else id) [0..<Suc (rep_top (dec mx) (run P (todo (adv 1 s))))]))"
          using ih mn0 by simp
        show ?thesis
        proof (cases g)
          case True
          have "matcher ml (Rep mn mx g r) s k =
              (case matcher ml (Rep 0 (dec mx) g r) (adv 1 s) k of Some t \<Rightarrow> Some t | None \<Rightarrow> k s)"
            using nz mn0 \<open>P x\<close> td True
            by (subst rep_single_step [OF r]) (simp cong: option.case_cong)
          then show ?thesis
            unfolding inner tp mn0 sh using True
            by (simp add: o_def rev_map first_some_append split: option.splits)
        next
          case False
          have "matcher ml (Rep mn mx g r) s k =
              (case k s of Some t \<Rightarrow> Some t | None \<Rightarrow> matcher ml (Rep 0 (dec mx) g r) (adv 1 s) k)"
            using nz mn0 \<open>P x\<close> td False
            by (subst rep_single_step [OF r]) (simp cong: option.case_cong)
          then show ?thesis
            unfolding inner tp mn0 sh using False
            by (simp add: o_def split: option.splits)
        qed
      qed
    qed
  qed
qed

section \<open>The entry points on values that are not strings\<close>

text \<open>
  C7.  For every input that is absent (\<open>null\<close>, \<open>undefined\<close>) or not a string,
  \<open>parseDocument\<close> returns the document with empty frontmatter, empty content and empty
  raw content, and \<open>parse\<close> returns the empty string; and on no input at all does either
  of them raise an error.
\<close>

theorem fallback_totality:
  "(\<not> typeof_string v \<longrightarrow>
      parseDocument v = Inr \<lparr>frontmatter = Map.empty, content = [], rawContent = []\<rparr> \<and>
      parse v = Inr [])
   \<and> (\<exists>d. parseDocument v = Inr d) \<and> (\<exists>h. parse v = Inr h)"
proof -
  have p: "\<exists>h. parse w = Inr h" for w
    by (cases w) (simp_all add: parse_def falsy_def typeof_string_def)
  have "\<exists>d. parseDocument v = Inr d"
  proof (cases v)
    case (JString s)
    define c where "c = (case exec False frontmatter_pat [] s of
                           None \<Rightarrow> s
                         | Some (pre, e) \<Rightarrow> trim (replace_first False frontmatter_pat [] s))"
    obtain h where "parse (JString c) = Inr h"
      using p by blast
    then show ?thesis
      unfolding JString parseDocument_def c_def
      by (simp add: Let_def typeof_string_def)
  qed (simp_all add: parseDocument_def falsy_def typeof_string_def)
  moreover have "\<not> typeof_string v \<Longrightarrow>
      parseDocument v = Inr \<lparr>frontmatter = Map.empty, content = [], rawContent = []\<rparr> \<and>
      parse v = Inr []"
    by (simp add: parseDocument_def parse_def)
  ultimately show ?thesis
    using p by blast
qed

theorem fallback_totality_witness:
  "\<not> typeof_string JNull \<and> \<not> typeof_string (JNumber 42) \<and>
   parseDocument JNull = Inr \<lparr>frontmatter = Map.empty, content = [], rawContent = []\<rparr> \<and>
   parseDocument (JNumber 42) = Inr \<lparr>frontmatter = Map.empty, content = [], rawContent = []\<rparr> \<and>
   parse JUndefined = Inr []"
  using fallback_totality [of JNull] fallback_totality [of "JNumber 42"]
    fallback_totality [of JUndefined]
  by (simp add: typeof_string_def)

section \<open>The rendered content of a document\<close>

text \<open>
  C9.  For every string \<open>s\<close>, \<open>parseDocument(s)\<close> returns a document whose \<open>content\<close> is
  \<open>parse\<close> applied to its \<open>rawContent\<close>.
\<close>

theorem content_is_parse_of_rawContent:
  "\<exists>d. parseDocument (JString s) = Inr d \<and> parse (JString (rawContent d)) = Inr (content d)"
proof (cases "s = []")
  case True
  then show ?thesis
    by (simp add: parseDocument_def parse_def falsy_def)
next
  case False
  define c where "c = (case exec False frontmatter_pat [] s of
                         None \<Rightarrow> s
                       | Some (pre, e) \<Rightarrow> trim (replace_first False frontmatter_pat [] s))"
  obtain h where h: "parse (JString c) = Inr h"
    by (cases "c = []") (simp_all add: parse_def falsy_def typeof_string_def)
  with False show ?thesis
    unfolding parseDocument_def c_def
    by (simp add: Let_def typeof_string_def falsy_def)
qed

section \<open>Nesting of bold text in a heading\<close>

text \<open>
  C5.  \<open>parse("# **Bold** heading")\<close> is exactly
  \<open><h1><strong>Bold</strong> heading</h1>\<close>: the heading pass wraps the line, the bold
  pass then works inside it, and the paragraph pass leaves the block alone.
\<close>

theorem bold_in_heading:
  "parse (JString ''# **Bold** heading'') = Inr ''<h1><strong>Bold</strong> heading</h1>''"
  by code_simp

section \<open>The slug generator against its description\<close>

declare replace_all.simps [simp del]

lemma first_some_Some [simp]: "first_some Some (x # xs) = Some x"
  by simp

lemma replace_all_Nil:
  "replace_all ml r f bef [] = (case match_at ml r bef [] of Some e \<Rightarrow> f [] e | None \<Rightarrow> [])"
  by (subst replace_all.simps) (simp split: option.splits)

lemma replace_all_no_match:
  "match_at ml r bef (c # cs) = None \<Longrightarrow>
   replace_all ml r f bef (c # cs) = c # replace_all ml r f (c # bef) cs"
  by (subst replace_all.simps) simp

lemma replace_all_match:
  "match_at ml r bef text = Some e \<Longrightarrow> todo e = drop n text \<Longrightarrow> 0 < n \<Longrightarrow> n \<le> length text \<Longrightarrow>
   replace_all ml r f bef text = f (take n text) e @ replace_all ml r f (rev (take n text) @ bef) (drop n text)"
proof -
  assume a: "match_at ml r bef text = Some e" "todo e = drop n text" "0 < n" "n \<le> length text"
  then have "length text - n < length text" "length text - (length text - n) = n"
    by arith+
  with a show ?thesis
    by (subst replace_all.simps) simp
qed

lemma replace_class_delete:
  "replace_all ml (Cls Q) (\<lambda>matched e. []) bef text = filter (\<lambda>c. \<not> Q c) text"
proof (induction "text" arbitrary: bef)
  case Nil
  show ?case
    by (simp add: replace_all_Nil match_at_def)
next
  case (Cons c cs)
  show ?case
  proof (cases "Q c")
    case True
    have "match_at ml (Cls Q) bef (c # cs) = Some \<lparr>seen = c # bef, todo = cs, caps = (\<lambda>_. None)\<rparr>"
      using True by (simp add: match_at_def)
    from replace_all_match [OF this, of 1] show ?thesis
      using True Cons by simp
  next
    case False
    have "match_at ml (Cls Q) bef (c # cs) = None"
      using False by (simp add: match_at_def)
    from replace_all_no_match [OF this] show ?thesis
      using False Cons by simp
  qed
qed

lemma match_at_plus_class:
  "match_at ml (Plus (Cls S)) bef text =
     (if run S text = 0 then None
      else Some \<lparr>seen = rev (take (run S text) text) @ bef, todo = drop (run S text) text, caps = (\<lambda>_. None)\<rparr>)"
proof -
  have s: "single (Cls S) S"
    by (simp add: single_def)
  show ?thesis
  proof (cases "run S text")
    case 0
    then show ?thesis
      unfolding match_at_def by (subst rep_single [OF s]) (simp_all add: rep_top_def)
  next
    case (Suc n)
    then show ?thesis
      unfolding match_at_def by (subst rep_single [OF s]) (simp_all add: rep_top_def adv_def)
  qed
qed

lemma run_le: "run S xs \<le> length xs"
  by (simp add: run_def length_takeWhile_le)

lemma drop_run: "drop (run S xs) xs = dropWhile S xs"
  by (simp add: run_def dropWhile_eq_drop)

lemma replace_plus_class:
  "replace_all ml (Plus (Cls S)) (\<lambda>matched e. rep) bef text = collapse S rep text"
proof (induction S rep "text" arbitrary: bef rule: collapse.induct)
  case (1 S rep)
  show ?case
    unfolding replace_all_Nil match_at_plus_class by (simp add: run_def)
next
  case (2 S rep c cs)
  show ?case
  proof (cases "S c")
    case True
    then have r: "run S (c # cs) = Suc (run S cs)"
      by (simp add: run_def)
    have m: "match_at ml (Plus (Cls S)) bef (c # cs) =
       Some \<lparr>seen = rev (take (run S (c # cs)) (c # cs)) @ bef,
             todo = drop (run S (c # cs)) (c # cs), caps = (\<lambda>_. None)\<rparr>"
      unfolding match_at_plus_class by (simp add: r)
    have "replace_all ml (Plus (Cls S)) (\<lambda>matched e. rep) bef (c # cs) =
        rep @ replace_all ml (Plus (Cls S)) (\<lambda>matched e. rep)
                (rev (take (run S (c # cs)) (c # cs)) @ bef) (drop (run S (c # cs)) (c # cs))"
      by (rule replace_all_match [OF m]) (simp_all add: r run_le)
    also have "drop (run S (c # cs)) (c # cs) = dropWhile S cs"
      by (simp add: r drop_run)
    finally show ?thesis
      using True 2(1) by simp
  next
    case False
    then have "match_at ml (Plus (Cls S)) bef (c # cs) = None"
      unfolding match_at_plus_class by (simp add: run_def)
    from replace_all_no_match [OF this] show ?thesis
      using False 2(2) by simp
  qed
qed

lemma first_some_None: "(\<And>x. x \<in> set xs \<Longrightarrow> k x = None) \<Longrightarrow> first_some k xs = None"
  by (induction xs) auto

lemma single_hyphen: "single (Chr CHR ''-'') is_hyphen"
  by (auto simp: single_def is_hyphen_def)

lemma Bol_seq: "matcher ml (Seq Bol r) s k = (if at_bol ml s then matcher ml r s k else None)"
  by simp

lemma plus_hyphen_Some:
  "matcher ml (Plus (Chr CHR ''-'')) s Some =
     (if run is_hyphen (todo s) = 0 then None else Some (adv (run is_hyphen (todo s)) s))"
proof (cases "run is_hyphen (todo s)")
  case 0
  then show ?thesis
    by (subst rep_single [OF single_hyphen]) (simp_all add: rep_top_def)
next
  case (Suc n)
  then show ?thesis
    by (subst rep_single [OF single_hyphen]) (simp_all add: rep_top_def)
qed

lemma plus_hyphen_Eol:
  "matcher False (Seq (Plus (Chr CHR ''-'')) Eol) s Some =
     (if run is_hyphen (todo s) \<noteq> 0 \<and> run is_hyphen (todo s) = length (todo s)
      then Some (adv (run is_hyphen (todo s)) s) else None)"
proof (cases "run is_hyphen (todo s)")
  case 0
  then show ?thesis
    unfolding matcher.simps(4,8)
    by (subst rep_single [OF single_hyphen]) (simp_all add: rep_top_def)
next
  case (Suc n)
  have le: "Suc n \<le> length (todo s)"
    using run_le [of is_hyphen "todo s"] Suc by simp
  have low: "first_some (\<lambda>s'. if at_eol False s' then Some s' else None)
               (map (\<lambda>j. adv j s) (rev [1..<Suc n])) = None"
    by (rule first_some_None) (use le in \<open>auto simp: at_eol_def split: list.splits\<close>)
  have "matcher False (Seq (Plus (Chr CHR ''-'')) Eol) s Some =
      first_some (\<lambda>s'. if at_eol False s' then Some s' else None)
        (map (\<lambda>j. adv j s) (rev [1..<Suc (Suc n)]))"
    unfolding matcher.simps(4,8) using Suc
    by (subst rep_single [OF single_hyphen]) (simp_all add: rep_top_def)
  also have "\<dots> = (if at_eol False (adv (Suc n) s) then Some (adv (Suc n) s) else None)"
    using low by simp
  also have "at_eol False (adv (Suc n) s) \<longleftrightarrow> Suc n = length (todo s)"
    using le by (auto simp: at_eol_def split: list.splits)
  finally show ?thesis
    using Suc by simp
qed

lemma match_at_slug_edges:
  "match_at False slug_edges bef inp =
     (if run is_hyphen inp \<noteq> 0 \<and> (bef = [] \<or> run is_hyphen inp = length inp)
      then Some \<lparr>seen = rev (take (run is_hyphen inp) inp) @ bef,
                  todo = drop (run is_hyphen inp) inp, caps = (\<lambda>_. None)\<rparr>
      else None)"
  unfolding match_at_def slug_edges_def matcher.simps(5) Bol_seq plus_hyphen_Some plus_hyphen_Eol
  by (auto simp: at_bol_def adv_def split: list.splits)

lemma strip_end_Cons:
  "\<not> list_all P (c # cs) \<Longrightarrow> rev (dropWhile P (rev (c # cs))) = c # rev (dropWhile P (rev cs))"
  by (auto simp: dropWhile_append list_all_iff)

lemma run_all: "run P xs = length xs \<longleftrightarrow> list_all P xs"
  by (induction xs) (auto simp: run_def)

lemma strip_end_all: "list_all P xs \<Longrightarrow> rev (dropWhile P (rev xs)) = []"
  by (simp add: list_all_iff)

lemma replace_edges_inner:
  "bef \<noteq> [] \<Longrightarrow>
   replace_all False slug_edges (\<lambda>matched e. []) bef inp = rev (dropWhile is_hyphen (rev inp))"
proof (induction inp arbitrary: bef)
  case Nil
  then show ?case
    by (simp add: replace_all_Nil match_at_slug_edges run_def)
next
  case (Cons c cs)
  show ?case
  proof (cases "list_all is_hyphen (c # cs)")
    case True
    then have r: "run is_hyphen (c # cs) = length (c # cs)"
      by (simp only: run_all)
    have m: "match_at False slug_edges bef (c # cs) =
        Some \<lparr>seen = rev (take (length (c # cs)) (c # cs)) @ bef,
              todo = drop (length (c # cs)) (c # cs), caps = (\<lambda>_. None)\<rparr>"
      unfolding match_at_slug_edges r by simp
    have "replace_all False slug_edges (\<lambda>matched e. []) bef (c # cs) =
        [] @ replace_all False slug_edges (\<lambda>matched e. [])
               (rev (take (length (c # cs)) (c # cs)) @ bef) (drop (length (c # cs)) (c # cs))"
      by (rule replace_all_match [OF m]) simp_all
    also have "\<dots> = []"
      by (simp add: replace_all_Nil match_at_slug_edges run_def)
    finally show ?thesis
      using strip_end_all [OF True] by simp
  next
    case False
    then have "run is_hyphen (c # cs) \<noteq> length (c # cs)"
      by (simp only: run_all) simp
    then have "match_at False slug_edges bef (c # cs) = None"
      using Cons(2) unfolding match_at_slug_edges by simp
    from replace_all_no_match [OF this]
    have "replace_all False slug_edges (\<lambda>matched e. []) bef (c # cs) =
        c # rev (dropWhile is_hyphen (rev cs))"
      using Cons(1) [of "c # bef"] by simp
    then show ?thesis
      using strip_end_Cons [OF False] by simp
  qed
qed

lemma replace_edges:
  "replace_all False slug_edges (\<lambda>matched e. []) [] inp = strip_hyphens inp"
proof (cases inp)
  case Nil
  then show ?thesis
    by (simp add: replace_all_Nil match_at_slug_edges run_def strip_hyphens_def)
next
  case (Cons c cs)
  show ?thesis
  proof (cases "is_hyphen c")
    case True
    then have r: "run is_hyphen inp = Suc (run is_hyphen cs)"
      using Cons by (simp add: run_def)
    have m: "match_at False slug_edges [] inp =
        Some \<lparr>seen = rev (take (run is_hyphen inp) inp) @ [],
              todo = drop (run is_hyphen inp) inp, caps = (\<lambda>_. None)\<rparr>"
      unfolding match_at_slug_edges using r by simp
    have ne: "rev (take (run is_hyphen inp) inp) @ [] \<noteq> []"
      using r Cons by simp
    have "replace_all False slug_edges (\<lambda>matched e. []) [] inp =
        [] @ replace_all False slug_edges (\<lambda>matched e. [])
               (rev (take (run is_hyphen inp) inp) @ []) (drop (run is_hyphen inp) inp)"
      by (rule replace_all_match [OF m]) (use r run_le [of is_hyphen inp] in simp_all)
    also have "\<dots> = rev (dropWhile is_hyphen (rev (drop (run is_hyphen inp) inp)))"
      using replace_edges_inner [OF ne] by simp
    finally show ?thesis
      by (simp add: strip_hyphens_def drop_run)
  next
    case False
    then have "match_at False slug_edges [] inp = None"
      using Cons unfolding match_at_slug_edges by (simp add: run_def)
    from replace_all_no_match [OF this [unfolded Cons]]
    have "replace_all False slug_edges (\<lambda>matched e. []) [] inp =
        c # rev (dropWhile is_hyphen (rev cs))"
      using replace_edges_inner [of "[c]" cs] Cons by simp
    moreover have "\<not> list_all is_hyphen (c # cs)"
      using False by simp
    ultimately show ?thesis
      using strip_end_Cons [of is_hyphen c cs] False Cons by (simp add: strip_hyphens_def)
  qed
qed

lemma slugify_spec: "slugify s = slug_spec s"
proof -
  have k: "(\<lambda>c. \<not> \<not> (is_word c \<or> is_space c \<or> c = CHR ''-'')) = slug_keep"
    by (auto simp: slug_keep_def is_word_def)
  have p: "(\<lambda>c. is_space c \<or> c = CHR ''_'' \<or> c = CHR ''-'') = slug_sep"
    by (auto simp: slug_sep_def)
  show ?thesis
    unfolding slugify_def slug_spec_def slug_special_def slug_separators_def
      replace_class_delete replace_plus_class replace_edges k p ..
qed

lemma lower_char_not_upper: "\<not> is_upper (lower_char c)"
proof -
  have "of_char c < (256::nat)" by simp
  then show ?thesis
    by (auto simp: is_upper_def lower_char_def Let_def)
qed

lemma slug_char_lower: "slug_char c \<Longrightarrow> lower_char c = c"
  by (auto simp: slug_char_def is_lower_def is_digit_def lower_char_def Let_def)

lemma slug_char_not_space: "slug_char c \<Longrightarrow> \<not> is_space c"
  by (auto simp: slug_char_def is_lower_def is_digit_def is_space_def Let_def)

lemma slug_char_keep: "slug_char c \<Longrightarrow> slug_keep c"
  by (auto simp: slug_char_def slug_keep_def)

lemma slug_char_sep: "slug_char c \<Longrightarrow> slug_sep c \<longleftrightarrow> c = CHR ''-''"
  by (auto simp: slug_char_def slug_sep_def is_lower_def is_digit_def is_space_def Let_def)

lemma keep_not_sep: "slug_keep c \<Longrightarrow> \<not> is_upper c \<Longrightarrow> \<not> slug_sep c \<Longrightarrow> slug_char c"
  by (auto simp: slug_char_def slug_keep_def slug_sep_def)

lemma no_double_Cons: "x \<noteq> CHR ''-'' \<Longrightarrow> no_double_hyphen (x # ys) = no_double_hyphen ys"
  by (cases ys) simp_all

lemma no_double_tl: "no_double_hyphen (x # ys) \<Longrightarrow> no_double_hyphen ys"
  by (cases ys) simp_all

lemma no_double_take: "no_double_hyphen xs \<Longrightarrow> no_double_hyphen (take n xs)"
proof (induction xs arbitrary: n)
  case Nil
  show ?case by simp
next
  case (Cons x xs)
  show ?case
  proof (cases n)
    case 0
    then show ?thesis by simp
  next
    case (Suc m)
    have ih: "no_double_hyphen (take m xs)"
      using Cons no_double_tl by blast
    show ?thesis
    proof (cases "take m xs")
      case Nil
      show ?thesis
        unfolding Suc take_Suc_Cons Nil by simp
    next
      case c: (Cons y ys)
      then obtain zs where xs: "xs = y # zs"
        by (cases xs) (auto simp: take_Cons' split: if_splits)
      with Cons(2) have "\<not> (x = CHR ''-'' \<and> y = CHR ''-'')"
        by simp
      with ih show ?thesis
        unfolding Suc take_Suc_Cons c by simp
    qed
  qed
qed

lemma no_double_dropWhile: "no_double_hyphen xs \<Longrightarrow> no_double_hyphen (dropWhile P xs)"
  by (induction xs) (auto dest: no_double_tl)

lemma strip_end_take:
  "rev (dropWhile P (rev xs)) = take (length xs - length (takeWhile P (rev xs))) xs"
  by (simp add: dropWhile_eq_drop rev_drop)

lemma collapse_chars:
  "\<forall>x\<in>set b. slug_keep x \<and> \<not> is_upper x \<Longrightarrow> list_all slug_char (collapse slug_sep ''-'' b)"
proof (induction slug_sep "''-''" b rule: collapse.induct)
  case 1
  show ?case by simp
next
  case (2 c cs)
  show ?case
  proof (cases "slug_sep c")
    case True
    have "\<forall>x\<in>set (dropWhile slug_sep cs). slug_keep x \<and> \<not> is_upper x"
      using 2(3) by (auto dest: set_dropWhileD)
    with True 2(1) show ?thesis
      by (simp add: slug_char_def)
  next
    case False
    with 2(2,3) show ?thesis
      by (simp add: keep_not_sep)
  qed
qed

lemma sep_hyphen: "slug_sep CHR ''-''"
  by (simp add: slug_sep_def)

lemma collapse_no_double: "no_double_hyphen (collapse slug_sep ''-'' b)"
proof (induction slug_sep "''-''" b rule: collapse.induct)
  case 1
  show ?case by simp
next
  case (2 c cs)
  show ?case
  proof (cases "slug_sep c")
    case True
    then have e: "collapse slug_sep ''-'' (c # cs) =
        CHR ''-'' # collapse slug_sep ''-'' (dropWhile slug_sep cs)"
      by simp
    note ih = 2(1) [OF True]
    show ?thesis
    proof (cases "dropWhile slug_sep cs")
      case Nil
      show ?thesis
        unfolding e Nil by simp
    next
      case (Cons d ds)
      then have nd: "\<not> slug_sep d"
        using hd_dropWhile [of slug_sep cs] by simp
      then have "d \<noteq> CHR ''-''"
        using sep_hyphen by auto
      with nd ih show ?thesis
        unfolding e Cons by simp
    qed
  next
    case False
    then have "c \<noteq> CHR ''-''"
      using sep_hyphen by auto
    with False 2(2) show ?thesis
      by (simp add: no_double_Cons)
  qed
qed

lemma strip_hyphens_shape:
  assumes "list_all slug_char c" and "no_double_hyphen c"
  shows "slug_shape (strip_hyphens c)"
proof -
  define u where "u = dropWhile is_hyphen c"
  define t where "t = rev (dropWhile is_hyphen (rev u))"
  have t: "strip_hyphens c = t"
    by (simp add: strip_hyphens_def t_def u_def)
  have tk: "t = take (length u - length (takeWhile is_hyphen (rev u))) u"
    unfolding t_def by (rule strip_end_take)
  have "set t \<subseteq> set u"
    unfolding tk by (rule set_take_subset)
  also have "set u \<subseteq> set c"
    unfolding u_def by (auto dest: set_dropWhileD)
  finally have 1: "list_all slug_char t"
    using assms(1) by (auto simp: list_all_iff)
  have 2: "no_double_hyphen t"
    unfolding tk u_def using assms(2) by (intro no_double_take no_double_dropWhile)
  have 3: "t \<noteq> [] \<Longrightarrow> hd t \<noteq> CHR ''-'' \<and> last t \<noteq> CHR ''-''"
  proof -
    assume ne: "t \<noteq> []"
    then have re: "dropWhile is_hyphen (rev u) \<noteq> []"
      by (simp add: t_def)
    have "last t = hd (dropWhile is_hyphen (rev u))"
      unfolding t_def using re by (simp add: last_rev)
    then have l: "last t \<noteq> CHR ''-''"
      using hd_dropWhile [OF re] by (simp add: is_hyphen_def)
    have une: "u \<noteq> []"
      using ne tk by auto
    have "hd t = hd u"
      using ne unfolding tk by (cases u) (auto simp: take_Cons')
    moreover have "\<not> is_hyphen (hd u)"
      using une hd_dropWhile [of is_hyphen c] by (simp add: u_def)
    ultimately show ?thesis
      using l by (simp add: is_hyphen_def)
  qed
  show ?thesis
    unfolding t slug_shape_def using 1 2 3 by (cases t) auto
qed

lemma slug_spec_shape: "slug_shape (slug_spec s)"
proof -
  have "\<forall>x\<in>set (trim (toLowerCase s)). \<not> is_upper x"
    by (auto simp: trim_def trimEnd_def trimStart_def toLowerCase_def lower_char_not_upper
          dest!: set_dropWhileD)
  then have "\<forall>x\<in>set (filter slug_keep (trim (toLowerCase s))). slug_keep x \<and> \<not> is_upper x"
    by simp
  then show ?thesis
    unfolding slug_spec_def
    by (intro strip_hyphens_shape collapse_chars collapse_no_double)
qed

lemma dropWhile_none: "(\<And>x. x \<in> set xs \<Longrightarrow> \<not> P x) \<Longrightarrow> dropWhile P xs = xs"
  by (cases xs) auto

lemma collapse_shaped:
  "list_all slug_char t \<Longrightarrow> no_double_hyphen t \<Longrightarrow> collapse slug_sep ''-'' t = t"
proof (induction t rule: no_double_hyphen.induct)
  case (1 x y zs)
  then have y: "slug_sep x \<Longrightarrow> \<not> slug_sep y"
    by (auto simp: slug_char_sep)
  from 1 have ih: "collapse slug_sep ''-'' (y # zs) = y # zs"
    by simp
  show ?case
  proof (cases "slug_sep x")
    case True
    then have "x = CHR ''-''"
      using 1(2) by (simp add: slug_char_sep)
    with True y ih show ?thesis by simp
  next
    case False
    with ih show ?thesis by simp
  qed
qed (auto simp: slug_char_sep)

lemma slug_spec_fixed:
  assumes "slug_shape t"
  shows "slug_spec t = t"
proof -
  from assms have ch: "list_all slug_char t" and nd: "no_double_hyphen t"
    by (simp_all add: slug_shape_def)
  have lo: "toLowerCase t = t"
    unfolding toLowerCase_def using ch by (intro map_idI) (simp add: list_all_iff slug_char_lower)
  have "dropWhile is_space t = t" "dropWhile is_space (rev t) = rev t"
    using ch by (auto intro!: dropWhile_none simp: list_all_iff slug_char_not_space)
  then have tr: "trim t = t"
    by (simp add: trim_def trimStart_def trimEnd_def)
  have fi: "filter slug_keep t = t"
    using ch by (simp add: list_all_iff slug_char_keep)
  have st: "strip_hyphens t = t"
  proof (cases t)
    case Nil
    then show ?thesis by (simp add: strip_hyphens_def)
  next
    case (Cons c cs)
    with assms have h: "c \<noteq> CHR ''-''" and l: "last t \<noteq> CHR ''-''"
      by (simp_all add: slug_shape_def)
    have "dropWhile is_hyphen t = t"
      using h Cons by (simp add: is_hyphen_def)
    moreover have "hd (rev t) = last t"
      by (rule hd_rev)
    then have "hd (rev t) \<noteq> CHR ''-''"
      using l by simp
    then have "dropWhile is_hyphen (rev t) = rev t"
      using Cons by (cases "rev t") (simp_all add: is_hyphen_def)
    ultimately show ?thesis
      by (simp add: strip_hyphens_def)
  qed
  show ?thesis
    unfolding slug_spec_def lo tr fi collapse_shaped [OF ch nd] st ..
qed

lemma createSlug_string: "createSlug (JString s) = Inr (slug_spec s)"
proof (cases "s = []")
  case True
  then show ?thesis
    by (simp add: createSlug_def falsy_def slug_spec_def toLowerCase_def trim_def trimStart_def
          trimEnd_def strip_hyphens_def)
next
  case False
  then show ?thesis
    by (simp add: createSlug_def falsy_def slugify_spec)
qed

text \<open>
  C8.  On every string \<open>createSlug\<close> returns the slug the description gives: the input
  lower-cased and trimmed, without the characters that are not a letter, digit, underscore,
  white space or hyphen (letters being \<open>A-Z\<close> and \<open>a-z\<close>), with every run of white space,
  underscores and hyphens collapsed into one hyphen, and without leading and trailing
  hyphens.  In particular \<open>createSlug("Hello, World! 2025")\<close> is \<open>hello-world-2025\<close> and
  \<open>createSlug("  --multiple---hyphens--  ")\<close> is \<open>multiple-hyphens\<close>.
\<close>

theorem createSlug_described:
  "createSlug (JString s) = Inr (slug_spec s) \<and>
   createSlug (JString ''Hello, World! 2025'') = Inr ''hello-world-2025'' \<and>
   createSlug (JString ''  --multiple---hyphens--  '') = Inr ''multiple-hyphens''"
proof -
  have "createSlug (JString ''Hello, World! 2025'') = Inr ''hello-world-2025''"
    by code_simp
  moreover have "createSlug (JString ''  --multiple---hyphens--  '') = Inr ''multiple-hyphens''"
    by code_simp
  ultimately show ?thesis
    using createSlug_string by simp
qed

text \<open>
  C10.  \<open>createSlug\<close> is idempotent on every string: its result consists of lower-case
  letters, digits and single hyphens, with no hyphen at either end, and \<open>createSlug\<close>
  leaves such a string as it is.
\<close>

theorem createSlug_idempotent:
  "\<exists>t. createSlug (JString s) = Inr t \<and> createSlug (JString t) = Inr t \<and> slug_shape t"
proof -
  have "slug_shape (slug_spec s)"
    by (rule slug_spec_shape)
  moreover from this have "slug_spec (slug_spec s) = slug_spec s"
    by (rule slug_spec_fixed)
  ultimately show ?thesis
    by (simp add: createSlug_string)
qed

theorem createSlug_idempotent_witness:
  "createSlug (JString ''hello-world-2025'') = Inr ''hello-world-2025'' \<and>
   slug_shape ''hello-world-2025''"
proof -
  have e: "createSlug (JString ''Hello, World! 2025'') = Inr ''hello-world-2025''"
    by code_simp
  from createSlug_idempotent [of "''Hello, World! 2025''"]
  obtain t where "createSlug (JString ''Hello, World! 2025'') = Inr t"
    and "createSlug (JString t) = Inr t" and "slug_shape t"
    by blast
  with e show ?thesis
    by simp
qed

section \<open>Numbers read from strings, against the grammar\<close>

lemma takeWhile_digits:
  "list_all is_digit d \<Longrightarrow> r = [] \<or> \<not> is_digit (hd r) \<Longrightarrow> takeWhile is_digit (d @ r) = d"
  by (cases r) (auto simp: list_all_iff takeWhile_append2)

lemma dropWhile_digits:
  "list_all is_digit d \<Longrightarrow> r = [] \<or> \<not> is_digit (hd r) \<Longrightarrow> dropWhile is_digit (d @ r) = r"
  by (cases r) (auto simp: list_all_iff dropWhile_append2)

lemma not_digit_chars:
  "\<not> is_digit CHR ''.''" "\<not> is_digit CHR ''e''" "\<not> is_digit CHR ''E''"
  "\<not> is_digit CHR ''+''" "\<not> is_digit CHR ''-''" "\<not> is_digit CHR ''I''"
  by (simp_all add: is_digit_def)

lemma space_not_numeric:
  "is_space c \<Longrightarrow> \<not> is_digit c \<and> c \<noteq> CHR ''.'' \<and> c \<noteq> CHR ''e'' \<and> c \<noteq> CHR ''E''
     \<and> c \<noteq> CHR ''+'' \<and> c \<noteq> CHR ''-'' \<and> c \<noteq> CHR ''I''"
  by (auto simp: is_space_def is_digit_def)

lemma exponent_prefix_part:
  assumes "ex = [] \<or> is_exponent_part ex" and "ws = [] \<or> is_space (hd ws)"
  shows "exponent_prefix (ex @ ws) = ex"
proof (cases "ex = []")
  case True
  with assms(2) show ?thesis
    by (cases ws) (auto simp: exponent_prefix_def dest: space_not_numeric)
next
  case False
  with assms(1) obtain e sg ds where ex: "ex = e # sg @ ds" and e: "e = CHR ''e'' \<or> e = CHR ''E''"
    and sg: "is_sign sg" and ds: "ds \<noteq> []" "list_all is_digit ds"
    by (auto simp: is_exponent_part_def)
  have nd: "ws = [] \<or> \<not> is_digit (hd ws)"
    using assms(2) space_not_numeric by blast
  have tk: "takeWhile is_digit (ds @ ws) = ds"
    by (rule takeWhile_digits [OF ds(2) nd])
  obtain d ds' where dd: "ds = d # ds'" and d: "is_digit d"
    using ds by (cases ds) auto
  then have dn: "d \<noteq> CHR ''+''" "d \<noteq> CHR ''-''"
    using not_digit_chars by auto
  from sg consider "sg = []" | "sg = ''+''" | "sg = ''-''"
    by (auto simp: is_sign_def)
  then show ?thesis
  proof cases
    case 1
    have "exponent_prefix (e # ds @ ws) = e # takeWhile is_digit (ds @ ws)"
      using e dn d tk ds(1) unfolding dd exponent_prefix_def by auto
    then show ?thesis
      using 1 ex tk by simp
  next
    case 2
    have "exponent_prefix (e # CHR ''+'' # ds @ ws) = e # CHR ''+'' # takeWhile is_digit (ds @ ws)"
      using e tk ds(1) unfolding exponent_prefix_def by auto
    then show ?thesis
      using 2 ex tk by simp
  next
    case 3
    have "exponent_prefix (e # CHR ''-'' # ds @ ws) = e # CHR ''-'' # takeWhile is_digit (ds @ ws)"
      using e tk ds(1) unfolding exponent_prefix_def by auto
    then show ?thesis
      using 3 ex tk by simp
  qed
qed

lemma exponent_hd:
  "ex = [] \<or> is_exponent_part ex \<Longrightarrow> ws = [] \<or> is_space (hd ws) \<Longrightarrow>
   ex @ ws = [] \<or> (\<not> is_digit (hd (ex @ ws)) \<and> hd (ex @ ws) \<noteq> CHR ''.'')"
  by (cases ex) (auto simp: is_exponent_part_def not_digit_chars dest: space_not_numeric)

lemma startsWith_append: "startsWith (p @ r) p"
  by (induction p) auto

lemma startsWith_hd: "startsWith s (p # ps) \<Longrightarrow> s \<noteq> [] \<and> hd s = p"
  by (cases s) auto

lemma unsigned_prefix_unfold:
  assumes "\<not> startsWith s ''Infinity''" and "d1 = takeWhile is_digit s"
    and "r1 = dropWhile is_digit s"
  shows "unsigned_prefix s =
     (case r1 of
        [] \<Rightarrow> if d1 = [] then None else Some d1
      | p # r2 \<Rightarrow>
          if p = CHR ''.'' then
            (if d1 = [] \<and> takeWhile is_digit r2 = [] then None
             else Some (d1 @ ''.'' @ takeWhile is_digit r2 @ exponent_prefix (dropWhile is_digit r2)))
          else if d1 = [] then None
          else Some (d1 @ exponent_prefix r1))"
  using assms(1) unfolding assms(2,3) unsigned_prefix_def Let_def
  by (simp split: list.splits)

lemma unsigned_prefix_literal:
  assumes u: "is_unsigned_decimal u" and ws: "ws = [] \<or> is_space (hd ws)"
  shows "unsigned_prefix (u @ ws) = Some u"
proof (cases "u = ''Infinity''")
  case True
  have "startsWith (''Infinity'' @ ws) ''Infinity''"
    by (rule startsWith_append)
  then show ?thesis
    unfolding True unsigned_prefix_def by (simp only: if_True)
next
  case False
  with u obtain d1 d2 ex where d1: "list_all is_digit d1" and d2: "list_all is_digit d2"
    and ex: "ex = [] \<or> is_exponent_part ex"
    and form: "(u = d1 @ ''.'' @ d2 @ ex \<and> (d1 \<noteq> [] \<or> d2 \<noteq> [])) \<or> (u = d1 @ ex \<and> d1 \<noteq> [])"
    by (auto simp: is_unsigned_decimal_def)
  note eh = exponent_hd [OF ex ws]
  note ep = exponent_prefix_part [OF ex ws]
  from form show ?thesis
  proof
    assume a: "u = d1 @ ''.'' @ d2 @ ex \<and> (d1 \<noteq> [] \<or> d2 \<noteq> [])"
    then have uw: "u @ ws = d1 @ (CHR ''.'' # d2 @ ex @ ws)" and ne: "d1 \<noteq> [] \<or> d2 \<noteq> []"
      by simp_all
    have ni: "\<not> startsWith (u @ ws) ''Infinity''"
    proof
      assume "startsWith (u @ ws) ''Infinity''"
      then have "hd (u @ ws) = CHR ''I''"
        using startsWith_hd by blast
      then show False
        using d1 unfolding uw by (cases d1) (auto simp: is_digit_def)
    qed
    have t1: "d1 = takeWhile is_digit (u @ ws)"
      unfolding uw by (rule takeWhile_digits [OF d1, symmetric]) (simp add: not_digit_chars)
    have r1: "CHR ''.'' # d2 @ ex @ ws = dropWhile is_digit (u @ ws)"
      unfolding uw by (rule dropWhile_digits [OF d1, symmetric]) (simp add: not_digit_chars)
    have t2: "takeWhile is_digit (d2 @ ex @ ws) = d2"
      by (rule takeWhile_digits [OF d2]) (use eh in auto)
    have r2: "dropWhile is_digit (d2 @ ex @ ws) = ex @ ws"
      by (rule dropWhile_digits [OF d2]) (use eh in auto)
    have "unsigned_prefix (u @ ws) = Some (d1 @ ''.'' @ d2 @ ex)"
      unfolding unsigned_prefix_unfold [OF ni t1 r1] using ne by (simp add: t2 r2 ep)
    with a show ?thesis by simp
  next
    assume a: "u = d1 @ ex \<and> d1 \<noteq> []"
    then have uw: "u @ ws = d1 @ (ex @ ws)" and ne: "d1 \<noteq> []"
      by simp_all
    have ni: "\<not> startsWith (u @ ws) ''Infinity''"
    proof
      assume "startsWith (u @ ws) ''Infinity''"
      then have "hd (u @ ws) = CHR ''I''"
        using startsWith_hd by blast
      then show False
        using d1 ne unfolding uw by (cases d1) (auto simp: is_digit_def)
    qed
    have t1: "d1 = takeWhile is_digit (u @ ws)"
      unfolding uw by (rule takeWhile_digits [OF d1, symmetric]) (use eh in auto)
    have r1: "ex @ ws = dropWhile is_digit (u @ ws)"
      unfolding uw by (rule dropWhile_digits [OF d1, symmetric]) (use eh in auto)
    have "unsigned_prefix (u @ ws) = Some (d1 @ ex)"
    proof (cases "ex @ ws")
      case Nil
      then show ?thesis
        unfolding unsigned_prefix_unfold [OF ni t1 r1] using ne by simp
    next
      case (Cons p r2)
      then have "p \<noteq> CHR ''.''"
        using eh by auto
      then show ?thesis
        unfolding unsigned_prefix_unfold [OF ni t1 r1] using ne ep Cons by simp
    qed
    with a show ?thesis by simp
  qed
qed

lemma unsigned_hd:
  "is_unsigned_decimal u \<Longrightarrow> u \<noteq> [] \<and> hd u \<noteq> CHR ''+'' \<and> hd u \<noteq> CHR ''-''"
proof -
  assume "is_unsigned_decimal u"
  then consider "u = ''Infinity''"
    | d1 r where "u = d1 @ r" "d1 \<noteq> []" "list_all is_digit d1"
    | r where "u = CHR ''.'' # r"
    unfolding is_unsigned_decimal_def by (metis append_Cons append_Nil)
  then show ?thesis
  proof cases
    case 1
    then show ?thesis by simp
  next
    case 2
    then show ?thesis
      by (cases d1) (auto simp: is_digit_def)
  next
    case 3
    then show ?thesis by simp
  qed
qed

lemma decimal_prefix_literal:
  assumes "is_decimal_literal t" and ws: "ws = [] \<or> is_space (hd ws)"
  shows "decimal_prefix (t @ ws) = Some t"
proof -
  from assms(1) obtain sg u where t: "t = sg @ u" and sg: "is_sign sg" and u: "is_unsigned_decimal u"
    by (auto simp: is_decimal_literal_def)
  note up = unsigned_prefix_literal [OF u ws]
  note uh = unsigned_hd [OF u]
  from sg consider "sg = []" | "sg = ''+''" | "sg = ''-''"
    by (auto simp: is_sign_def)
  then show ?thesis
  proof cases
    case 1
    obtain c cs where "u = c # cs" "c \<noteq> CHR ''+''" "c \<noteq> CHR ''-''"
      using uh by (cases u) auto
    then show ?thesis
      using up unfolding t 1 decimal_prefix_def by simp
  next
    case 2
    show ?thesis
      using up unfolding t 2 decimal_prefix_def by simp
  next
    case 3
    show ?thesis
      using up unfolding t 3 decimal_prefix_def by simp
  qed
qed

lemma exponent_prefix_whole:
  assumes "exponent_prefix r = r"
  shows "r = [] \<or> is_exponent_part r"
proof (cases r)
  case Nil
  then show ?thesis by simp
next
  case (Cons e r')
  with assms have e: "e = CHR ''e'' \<or> e = CHR ''E''"
    by (auto simp: exponent_prefix_def split: if_splits)
  show ?thesis
  proof (cases r')
    case Nil
    with assms Cons e show ?thesis
      by (auto simp: exponent_prefix_def)
  next
    case c2: (Cons g r'')
    show ?thesis
    proof (cases "g = CHR ''+'' \<or> g = CHR ''-''")
      case True
      with assms Cons c2 e have "takeWhile is_digit r'' = r''" "r'' \<noteq> []"
        by (auto simp: exponent_prefix_def split: if_splits)
      then have "list_all is_digit r''"
        by (simp add: takeWhile_eq_all_conv list_all_iff)
      with \<open>r'' \<noteq> []\<close> True e have "is_exponent_part (e # [g] @ r'')"
        unfolding is_exponent_part_def is_sign_def by blast
      then show ?thesis
        using Cons c2 by simp
    next
      case False
      with assms Cons c2 e have "takeWhile is_digit r' = r'"
        by (auto simp: exponent_prefix_def split: if_splits)
      then have "list_all is_digit r'"
        by (simp add: takeWhile_eq_all_conv list_all_iff)
      with c2 e have "is_exponent_part (e # [] @ r')"
        unfolding is_exponent_part_def is_sign_def by blast
      then show ?thesis
        using Cons by simp
    qed
  qed
qed

lemma digits_takeWhile: "list_all is_digit (takeWhile is_digit r)"
  by (induction r) auto

lemma unsigned_prefix_whole:
  assumes "unsigned_prefix r = Some r"
  shows "is_unsigned_decimal r"
proof (cases "startsWith r ''Infinity''")
  case True
  with assms show ?thesis
    by (simp add: unsigned_prefix_def is_unsigned_decimal_def)
next
  case False
  define d1 where "d1 = takeWhile is_digit r"
  define r1 where "r1 = dropWhile is_digit r"
  note up = assms [unfolded unsigned_prefix_unfold [OF False d1_def r1_def]]
  have r: "r = d1 @ r1"
    by (simp add: d1_def r1_def)
  have dg1: "list_all is_digit d1"
    unfolding d1_def by (rule digits_takeWhile)
  show ?thesis
  proof (cases r1)
    case Nil
    with up have "d1 \<noteq> []"
      by (auto split: if_splits)
    moreover have "r = d1 @ []"
      using r Nil by simp
    ultimately show ?thesis
      unfolding is_unsigned_decimal_def using dg1 by blast
  next
    case (Cons p r2)
    show ?thesis
    proof (cases "p = CHR ''.''")
      case True
      define d2 where "d2 = takeWhile is_digit r2"
      define r3 where "r3 = dropWhile is_digit r2"
      have r2: "r2 = d2 @ r3"
        by (simp add: d2_def r3_def)
      have dg2: "list_all is_digit d2"
        unfolding d2_def by (rule digits_takeWhile)
      from up Cons True
      have ne: "d1 \<noteq> [] \<or> d2 \<noteq> []" and eq: "d1 @ ''.'' @ d2 @ exponent_prefix r3 = r"
        by (auto simp: d2_def r3_def split: if_splits)
      from eq have "exponent_prefix r3 = r3"
        unfolding r Cons True r2 by simp
      then have "r3 = [] \<or> is_exponent_part r3"
        by (rule exponent_prefix_whole)
      moreover have "r = d1 @ ''.'' @ d2 @ r3"
        unfolding r Cons True r2 by simp
      ultimately show ?thesis
        unfolding is_unsigned_decimal_def using dg1 dg2 ne by blast
    next
      case np: False
      from up Cons np
      have ne: "d1 \<noteq> []" and eq: "d1 @ exponent_prefix r1 = r"
        by (auto split: if_splits)
      from eq have "exponent_prefix r1 = r1"
        using r by simp
      then have "r1 = [] \<or> is_exponent_part r1"
        by (rule exponent_prefix_whole)
      moreover have "list_all is_digit []"
        by simp
      ultimately show ?thesis
        unfolding is_unsigned_decimal_def using r dg1 ne by blast
    qed
  qed
qed

lemma decimal_prefix_whole:
  assumes "decimal_prefix t = Some t"
  shows "is_decimal_literal t"
proof (cases t)
  case Nil
  with assms show ?thesis
    by (simp add: decimal_prefix_def)
next
  case (Cons g r)
  show ?thesis
  proof (cases "g = CHR ''+'' \<or> g = CHR ''-''")
    case True
    with assms Cons have "unsigned_prefix r = Some r"
      by (auto simp: decimal_prefix_def)
    then have "is_unsigned_decimal r"
      by (rule unsigned_prefix_whole)
    moreover have "is_sign [g]"
      using True by (auto simp: is_sign_def)
    moreover have "t = [g] @ r"
      using Cons by simp
    ultimately show ?thesis
      unfolding is_decimal_literal_def by blast
  next
    case False
    with assms Cons have "unsigned_prefix t = Some t"
      by (auto simp: decimal_prefix_def)
    then have "is_unsigned_decimal t"
      by (rule unsigned_prefix_whole)
    moreover have "is_sign []"
      by (simp add: is_sign_def)
    ultimately show ?thesis
      unfolding is_decimal_literal_def by (metis append_Nil)
  qed
qed

lemma decimal_prefix_iff: "decimal_prefix t = Some t \<longleftrightarrow> is_decimal_literal t"
  using decimal_prefix_whole decimal_prefix_literal [of t "[]"] by auto

section \<open>Coercion of frontmatter values\<close>

lemma all_takeWhile: "list_all P (takeWhile P xs)"
  by (induction xs) auto

lemma trimStart_split:
  "\<exists>ws. trimStart w = trim w @ ws \<and> (ws = [] \<or> is_space (hd ws))"
proof -
  define x where "x = trimStart w"
  define ws where "ws = rev (takeWhile is_space (rev x))"
  have "rev x = takeWhile is_space (rev x) @ dropWhile is_space (rev x)"
    by simp
  then have "x = rev (dropWhile is_space (rev x)) @ ws"
    unfolding ws_def by (metis rev_append rev_rev_ident)
  then have 1: "trimStart w = trim w @ ws"
    by (simp add: trim_def trimEnd_def x_def)
  have "list_all is_space ws"
    unfolding ws_def using all_takeWhile [of is_space "rev x"] by (simp add: list_all_iff)
  then have "ws = [] \<or> is_space (hd ws)"
    by (cases ws) auto
  with 1 show ?thesis by blast
qed

lemma strip_both_fixed:
  assumes "t = [] \<or> (\<not> P (hd t) \<and> \<not> P (last t))"
  shows "rev (dropWhile P (rev (dropWhile P t))) = t"
proof (cases t)
  case Nil
  then show ?thesis by simp
next
  case (Cons c cs)
  with assms have h: "\<not> P c" and l: "\<not> P (last t)"
    by simp_all
  have 1: "dropWhile P t = t"
    using h Cons by simp
  have "hd (rev t) = last t"
    by (rule hd_rev)
  then have "dropWhile P (rev t) = rev t"
    using l Cons by (cases "rev t") simp_all
  with 1 show ?thesis by simp
qed

lemma strip_both_ends:
  assumes "t = rev (dropWhile P (rev (dropWhile P c)))" and "t \<noteq> []"
  shows "\<not> P (hd t) \<and> \<not> P (last t)"
proof -
  define u where "u = dropWhile P c"
  have t: "t = rev (dropWhile P (rev u))"
    using assms(1) by (simp add: u_def)
  have tk: "t = take (length u - length (takeWhile P (rev u))) u"
    unfolding t by (rule strip_end_take)
  have re: "dropWhile P (rev u) \<noteq> []"
    using assms(2) t by simp
  have "last t = hd (dropWhile P (rev u))"
    unfolding t using re by (simp add: last_rev)
  then have l: "\<not> P (last t)"
    using hd_dropWhile [OF re] by simp
  have une: "u \<noteq> []"
    using assms(2) tk by auto
  have "hd t = hd u"
    using assms(2) unfolding tk by (cases u) (auto simp: take_Cons')
  moreover have "\<not> P (hd u)"
    using une hd_dropWhile [of P c] by (simp add: u_def)
  ultimately show ?thesis
    using l by simp
qed

lemma trim_trim: "trim (trim x) = trim x"
proof -
  have e: "trim x = rev (dropWhile is_space (rev (dropWhile is_space x)))" for x
    by (simp add: trim_def trimEnd_def trimStart_def)
  have "trim x = [] \<or> (\<not> is_space (hd (trim x)) \<and> \<not> is_space (last (trim x)))"
    using strip_both_ends [OF e] by blast
  from strip_both_fixed [OF this] show ?thesis
    by (simp add: e)
qed

lemma parseFloat_decimal:
  assumes "is_decimal_literal (trim w)"
  shows "parseFloat w = Some (trim w)"
proof -
  obtain ws where "trimStart w = trim w @ ws" "ws = [] \<or> is_space (hd ws)"
    using trimStart_split by blast
  then show ?thesis
    unfolding parseFloat_def using decimal_prefix_literal [OF assms] by simp
qed

lemma non_decimal_not_decimal:
  assumes "non_decimal_literal t"
  shows "decimal_prefix (t @ ws) = Some ''0'' \<and> \<not> is_decimal_literal t"
proof -
  from assms obtain x ds where t: "t = CHR ''0'' # x # ds" and ds: "ds \<noteq> []"
    and x: "x = CHR ''x'' \<or> x = CHR ''X'' \<or> x = CHR ''o'' \<or> x = CHR ''O'' \<or> x = CHR ''b'' \<or> x = CHR ''B''"
    by (auto simp: non_decimal_literal_def split: list.splits)
  have d0: "is_digit CHR ''0''" and nx: "\<not> is_digit x" "x \<noteq> CHR ''.''" "x \<noteq> CHR ''e''" "x \<noteq> CHR ''E''"
    using x by (auto simp: is_digit_def)
  have p: "decimal_prefix (t @ ws') = Some ''0''" for ws'
    unfolding t using d0 nx
    by (simp add: decimal_prefix_def unsigned_prefix_def exponent_prefix_def Let_def)
  have "\<not> is_decimal_literal t"
  proof
    assume "is_decimal_literal t"
    then have "decimal_prefix t = Some t"
      by (simp add: decimal_prefix_iff)
    with p [of "[]"] show False
      by (simp add: t)
  qed
  with p show ?thesis by simp
qed

lemma parseFloat_non_decimal:
  assumes "non_decimal_literal (trim w)"
  shows "parseFloat w = Some ''0''"
proof -
  obtain ws where "trimStart w = trim w @ ws"
    using trimStart_split by blast
  then show ?thesis
    unfolding parseFloat_def using non_decimal_not_decimal [OF assms] by simp
qed

lemma coerce_value_scalar:
  assumes nb: "\<not> (startsWith v ''['' \<and> endsWith v '']'')"
    and w: "w = (if quoted v then slice_1_m1 v else v)"
  shows "coerce_value v =
     (if w = ''true'' then VBoolean True
      else if w = ''false'' then VBoolean False
      else if is_decimal_literal (trim w) then VNumber (trim w)
      else if non_decimal_literal (trim w) then VNumber ''0''
      else VString w)"
proof -
  have c: "coerce_value v =
     (if w = ''true'' then VBoolean True
      else if w = ''false'' then VBoolean False
      else if \<not> isNaN_string w \<and> parseFloat w \<noteq> None then VNumber (the (parseFloat w))
      else VString w)"
    using nb unfolding coerce_value_def w by (simp add: Let_def)
  consider (dec) "is_decimal_literal (trim w)"
    | (non) "\<not> is_decimal_literal (trim w)" "non_decimal_literal (trim w)"
    | (str) "\<not> is_decimal_literal (trim w)" "\<not> non_decimal_literal (trim w)"
    by blast
  then show ?thesis
  proof cases
    case dec
    then have "\<not> isNaN_string w"
      by (simp add: isNaN_string_def decimal_prefix_iff)
    with dec show ?thesis
      unfolding c by (simp add: parseFloat_decimal)
  next
    case non
    then have "\<not> isNaN_string w"
      by (simp add: isNaN_string_def)
    with non show ?thesis
      unfolding c by (simp add: parseFloat_non_decimal)
  next
    case str
    have "isNaN_string w \<or> parseFloat w = None"
    proof (cases "trim w = []")
      case True
      obtain ws where ws: "trimStart w = trim w @ ws" "ws = [] \<or> is_space (hd ws)"
        using trimStart_split by blast
      have "trimStart w = []"
      proof (rule ccontr)
        assume ne: "trimStart w \<noteq> []"
        then have "\<not> is_space (hd (trimStart w))"
          unfolding trimStart_def by (rule hd_dropWhile)
        with ne ws True show False by simp
      qed
      then show ?thesis
        by (simp add: parseFloat_def decimal_prefix_def)
    next
      case False
      with str show ?thesis
        by (simp add: isNaN_string_def decimal_prefix_iff)
    qed
    with str show ?thesis
      unfolding c by auto
  qed
qed

lemma quoted_wrapped:
  assumes "q = DQ \<or> q = SQ"
  shows "quoted (q # w @ [q]) \<and> slice_1_m1 (q # w @ [q]) = w \<and>
         \<not> (startsWith (q # w @ [q]) ''['' \<and> endsWith (q # w @ [q]) '']'')"
  using assms by (auto simp: quoted_def slice_1_m1_def endsWith_def DQ_def SQ_def)

text \<open>
  C1, as the code has it.  For every line whose raw value, trimmed, is wrapped in matching
  single or double quotes, the metadata value is the unwrapped text coerced the way an
  unquoted value is: \<open>true\<close> and \<open>false\<close> give the booleans, a decimal literal gives the
  number, and any other text that is no numeric literal gives the unwrapped plain string.
  (What the unwrapped literals \<open>0x..\<close>, \<open>0o..\<close> and \<open>0b..\<close> give is left out.)
\<close>

theorem quoted_value_is_coerced:
  assumes "indexOf CHR '':'' line = Some i"
    and "trim (drop (i + 1) line) = q # w @ [q]"
    and "q = DQ \<or> q = SQ"
    and "\<not> non_decimal_literal (trim w)"
  shows "fm_line line =
     Some (trim (take i line),
           if w = ''true'' then VBoolean True
           else if w = ''false'' then VBoolean False
           else if is_decimal_literal (trim w) then VNumber (trim w)
           else VString w)"
proof -
  note qw = quoted_wrapped [OF assms(3), of w]
  have "w = (if quoted (q # w @ [q]) then slice_1_m1 (q # w @ [q]) else q # w @ [q])"
    using qw by simp
  from coerce_value_scalar [OF _ this] qw assms(4)
  have "coerce_value (q # w @ [q]) =
     (if w = ''true'' then VBoolean True
      else if w = ''false'' then VBoolean False
      else if is_decimal_literal (trim w) then VNumber (trim w)
      else VString w)"
    by simp
  then show ?thesis
    unfolding fm_line_def using assms(1,2) by simp
qed

theorem quoted_value_is_coerced_witness:
  "fm_line (''title: '' @ [DQ] @ ''My Post'' @ [DQ]) = Some (''title'', VString ''My Post'') \<and>
   fm_line (''n: '' @ [SQ] @ ''42'' @ [SQ]) = Some (''n'', VNumber ''42'')"
proof -
  have a: "indexOf CHR '':'' (''title: '' @ [DQ] @ ''My Post'' @ [DQ]) = Some 5"
    "trim (drop (5 + 1) (''title: '' @ [DQ] @ ''My Post'' @ [DQ])) = DQ # ''My Post'' @ [DQ]"
    "\<not> non_decimal_literal (trim ''My Post'')"
    "decimal_prefix (trim ''My Post'') \<noteq> Some (trim ''My Post'')"
    "trim (take 5 (''title: '' @ [DQ] @ ''My Post'' @ [DQ])) = ''title''"
    by code_simp+
  have b: "indexOf CHR '':'' (''n: '' @ [SQ] @ ''42'' @ [SQ]) = Some 1"
    "trim (drop (1 + 1) (''n: '' @ [SQ] @ ''42'' @ [SQ])) = SQ # ''42'' @ [SQ]"
    "\<not> non_decimal_literal (trim ''42'')"
    "decimal_prefix (trim ''42'') = Some (trim ''42'')"
    "trim (take 1 (''n: '' @ [SQ] @ ''42'' @ [SQ])) = ''n''"
    "trim ''42'' = ''42''"
    by code_simp+
  show ?thesis
    using quoted_value_is_coerced [OF a(1,2) _ a(3)] quoted_value_is_coerced [OF b(1,2) _ b(3)]
      a(4,5) b(4,5,6)
    by (simp add: decimal_prefix_iff)
qed

theorem quoted_value_counterexample:
  "fm_line (''draft: '' @ [DQ] @ ''true'' @ [DQ]) = Some (''draft'', VBoolean True) \<and>
   fm_line (''draft: '' @ [DQ] @ ''false'' @ [DQ]) = Some (''draft'', VBoolean False) \<and>
   fm_line (''n: '' @ [DQ] @ ''42'' @ [DQ]) = Some (''n'', VNumber ''42'') \<and>
   VBoolean True \<noteq> VString ''true'' \<and> VBoolean False \<noteq> VString ''false'' \<and>
   VNumber ''42'' \<noteq> VString ''42''"
proof -
  have "fm_line (''draft: '' @ [DQ] @ ''true'' @ [DQ]) = Some (''draft'', VBoolean True)"
    by code_simp
  moreover have "fm_line (''draft: '' @ [DQ] @ ''false'' @ [DQ]) = Some (''draft'', VBoolean False)"
    by code_simp
  moreover have "fm_line (''n: '' @ [DQ] @ ''42'' @ [DQ]) = Some (''n'', VNumber ''42'')"
    by code_simp
  ultimately show ?thesis by simp
qed

text \<open>
  C2, as the code has it.  An unquoted raw value that is not bracketed and is neither
  \<open>true\<close> nor \<open>false\<close> becomes a number exactly when the whole of it is a decimal literal of
  the language, which \<open>Infinity\<close> with an optional sign is; any other value is kept as the
  trimmed raw string.  (What the literals \<open>0x..\<close>, \<open>0o..\<close> and \<open>0b..\<close> give is left out.)
\<close>

theorem unquoted_number_coercion:
  assumes "indexOf CHR '':'' line = Some i"
    and "v = trim (drop (i + 1) line)"
    and "\<not> (startsWith v ''['' \<and> endsWith v '']'')"
    and "\<not> quoted v"
    and "v \<noteq> ''true''" and "v \<noteq> ''false''"
    and "\<not> non_decimal_literal v"
  shows "fm_line line =
     Some (trim (take i line), if is_decimal_literal v then VNumber v else VString v)"
proof -
  have t: "trim v = v"
    unfolding assms(2) by (rule trim_trim)
  have "v = (if quoted v then slice_1_m1 v else v)"
    using assms(4) by simp
  from coerce_value_scalar [OF assms(3) this] assms(5,6,7)
  have "coerce_value v = (if is_decimal_literal v then VNumber v else VString v)"
    by (simp add: t)
  then show ?thesis
    unfolding fm_line_def using assms(1,2) by simp
qed

theorem unquoted_number_coercion_witness:
  "fm_line ''x: -1.5e3'' = Some (''x'', VNumber ''-1.5e3'') \<and>
   fm_line ''y: 12abc'' = Some (''y'', VString ''12abc'')"
proof -
  have a: "indexOf CHR '':'' ''x: -1.5e3'' = Some 1"
    "''-1.5e3'' = trim (drop (1 + 1) ''x: -1.5e3'')"
    "\<not> (startsWith ''-1.5e3'' ''['' \<and> endsWith ''-1.5e3'' '']'')"
    "\<not> quoted ''-1.5e3''"
    "''-1.5e3'' \<noteq> ''true''" "''-1.5e3'' \<noteq> ''false''"
    "\<not> non_decimal_literal ''-1.5e3''"
    "decimal_prefix ''-1.5e3'' = Some ''-1.5e3''"
    "trim (take 1 ''x: -1.5e3'') = ''x''"
    by code_simp+
  have b: "indexOf CHR '':'' ''y: 12abc'' = Some 1"
    "''12abc'' = trim (drop (1 + 1) ''y: 12abc'')"
    "\<not> (startsWith ''12abc'' ''['' \<and> endsWith ''12abc'' '']'')"
    "\<not> quoted ''12abc''"
    "''12abc'' \<noteq> ''true''" "''12abc'' \<noteq> ''false''"
    "\<not> non_decimal_literal ''12abc''"
    "decimal_prefix ''12abc'' \<noteq> Some ''12abc''"
    "trim (take 1 ''y: 12abc'') = ''y''"
    by code_simp+
  show ?thesis
    using unquoted_number_coercion [OF a(1-7)] unquoted_number_coercion [OF b(1-7)]
      a(8,9) b(8,9)
    by (simp add: decimal_prefix_iff)
qed

theorem unquoted_number_counterexample:
  "fm_line ''limit: Infinity'' = Some (''limit'', VNumber ''Infinity'') \<and>
   fm_line ''mask: 0x10'' = Some (''mask'', VNumber ''0'') \<and>
   VNumber ''Infinity'' \<noteq> VString ''Infinity'' \<and> VNumber ''0'' \<noteq> VString ''0x10''"
proof -
  have "fm_line ''limit: Infinity'' = Some (''limit'', VNumber ''Infinity'')"
    by code_simp
  moreover have "fm_line ''mask: 0x10'' = Some (''mask'', VNumber ''0'')"
    by code_simp
  ultimately show ?thesis by simp
qed

section \<open>Recognition of the frontmatter block\<close>

lemma first_some_ex: "first_some k xs \<noteq> None \<longleftrightarrow> (\<exists>x\<in>set xs. k x \<noteq> None)"
  by (induction xs) (auto split: option.splits)

lemma startsWith_iff: "startsWith s p \<longleftrightarrow> (\<exists>r. s = p @ r)"
proof (induction s p rule: startsWith.induct)
  case (3 c cs p ps)
  then show ?case by auto
qed auto

lemma startsWith_take: "startsWith s p \<longleftrightarrow> take (length p) s = p"
proof (induction s p rule: startsWith.induct)
  case (3 c cs p ps)
  then show ?case by auto
qed auto

lemma matcher_Lit:
  "matcher ml (Lit p) s k = (if startsWith (todo s) p then k (adv (length p) s) else None)"
proof (induction p arbitrary: s rule: Lit.induct)
  case 1
  show ?case by simp
next
  case (2 c)
  show ?case
    by (cases "todo s") (auto simp: adv_def)
next
  case (3 c v va)
  show ?case
  proof (cases "todo s")
    case Nil
    then show ?thesis by simp
  next
    case (Cons x xs)
    show ?thesis
    proof (cases "x = c")
      case False
      with Cons show ?thesis by simp
    next
      case True
      have st: "s\<lparr>seen := c # seen s, todo := xs\<rparr> = adv (Suc 0) s"
        using step_adv [OF Cons] True by simp
      have "matcher ml (Lit (c # v # va)) s k = matcher ml (Lit (v # va)) (adv (Suc 0) s) k"
        using Cons True by (simp add: st)
      also have "\<dots> =
          (if startsWith (todo (adv (Suc 0) s)) (v # va)
           then k (adv (length (v # va)) (adv (Suc 0) s)) else None)"
        using 3 [of "adv (Suc 0) s"] by simp
      finally show ?thesis
        using Cons True by (simp del: Lit.simps)
    qed
  qed
qed

lemma single_Chr: "single (Chr c) (\<lambda>x. x = c)"
  by (simp add: single_def)

lemma matcher_Opt_Chr:
  "matcher ml (Opt (Chr c)) s k =
     (if startsWith (todo s) [c]
      then (case k (adv 1 s) of Some t \<Rightarrow> Some t | None \<Rightarrow> k s)
      else k s)"
proof (cases "todo s")
  case Nil
  then show ?thesis
    by (subst rep_single [OF single_Chr]) (simp_all add: rep_top_def run_def split: option.splits)
next
  case (Cons x xs)
  then show ?thesis
    by (subst rep_single [OF single_Chr])
       (auto simp: rep_top_def run_def split: option.splits)
qed

lemma single_AnyChar: "single AnyChar (\<lambda>c. is_space c \<or> \<not> is_space c)"
  by (simp add: single_def AnyChar_def)

lemma run_any: "run (\<lambda>c. is_space c \<or> \<not> is_space c) xs = length xs"
  by (induction xs) (simp_all add: run_def)

lemma run_True: "run (\<lambda>c. True) xs = length xs"
  by (induction xs) (simp_all add: run_def)

lemma matcher_LazyStar_AnyChar:
  "matcher ml (LazyStar AnyChar) s k =
     first_some k (map (\<lambda>j. adv j s) [0..<Suc (length (todo s))])"
  by (subst rep_single [OF single_AnyChar]) (simp_all add: rep_top_def run_True)

lemma CR_neq_LF: "CR \<noteq> LF"
  by (simp add: CR_def LF_def)

lemma matcher_newline:
  "matcher ml (Seq (Opt (Chr CR)) (Seq (Chr LF) r)) s k \<noteq> None \<longleftrightarrow>
     (\<exists>nl. is_newline nl \<and> startsWith (todo s) nl \<and> matcher ml r (adv (length nl) s) k \<noteq> None)"
proof -
  have lf: "matcher ml (Seq (Chr LF) r) s' k =
      (if startsWith (todo s') [LF] then matcher ml r (adv 1 s') k else None)" for s'
    by (cases "todo s'") (auto simp: adv_def)
  show ?thesis
  proof (cases "startsWith (todo s) [CR]")
    case True
    then obtain xs where t: "todo s = CR # xs"
      by (cases "todo s") auto
    then have n: "\<not> startsWith (todo s) [LF]"
      using CR_neq_LF by simp
    have eq: "matcher ml (Seq (Opt (Chr CR)) (Seq (Chr LF) r)) s k =
        (if startsWith xs [LF] then matcher ml r (adv (Suc (Suc 0)) s) k else None)"
      unfolding matcher.simps(4) [of ml "Opt (Chr CR)"] matcher_Opt_Chr lf
      using True n t by (simp split: option.splits)
    have nl: "startsWith (todo s) nl \<and> is_newline nl \<longleftrightarrow> startsWith xs [LF] \<and> nl = [CR, LF]" for nl
      using t CR_neq_LF by (auto simp: is_newline_def)
    have "(\<exists>nl. is_newline nl \<and> startsWith (todo s) nl \<and> matcher ml r (adv (length nl) s) k \<noteq> None)
        \<longleftrightarrow> (startsWith xs [LF] \<and> matcher ml r (adv (length [CR, LF]) s) k \<noteq> None)"
      using nl by metis
    then show ?thesis
      unfolding eq by simp
  next
    case False
    have eq: "matcher ml (Seq (Opt (Chr CR)) (Seq (Chr LF) r)) s k =
        (if startsWith (todo s) [LF] then matcher ml r (adv (Suc 0) s) k else None)"
      unfolding matcher.simps(4) [of ml "Opt (Chr CR)"] matcher_Opt_Chr lf
      using False by simp
    have nl: "startsWith (todo s) nl \<and> is_newline nl \<longleftrightarrow> startsWith (todo s) [LF] \<and> nl = [LF]" for nl
      using False by (cases "todo s") (auto simp: is_newline_def)
    have "(\<exists>nl. is_newline nl \<and> startsWith (todo s) nl \<and> matcher ml r (adv (length nl) s) k \<noteq> None)
        \<longleftrightarrow> (startsWith (todo s) [LF] \<and> matcher ml r (adv (length [LF]) s) k \<noteq> None)"
      using nl by metis
    then show ?thesis
      unfolding eq by simp
  qed
qed

lemma matcher_fm_end:
  "matcher ml (Seq (Opt (Chr CR)) (Opt (Chr LF))) s Some \<noteq> None"
  unfolding matcher.simps(4) matcher_Opt_Chr
  by (simp split: option.splits)

lemma matcher_fm_close:
  "matcher ml (Seqs [Opt (Chr CR), Chr LF, Lit ''---'', Opt (Chr CR), Opt (Chr LF)]) s Some \<noteq> None \<longleftrightarrow>
     (\<exists>nl. is_newline nl \<and> startsWith (todo s) (nl @ ''---''))"
proof -
  have a: "matcher ml (Seq (Lit ''---'') (Seq (Opt (Chr CR)) (Opt (Chr LF)))) s' Some \<noteq> None \<longleftrightarrow>
      startsWith (todo s') ''---''" for s'
    unfolding matcher.simps(4) [of ml "Lit ''---''"] matcher_Lit
    using matcher_fm_end by simp
  have b: "startsWith t nl \<and> startsWith (drop (length nl) t) p \<longleftrightarrow> startsWith t (nl @ p)" for t nl p
    by (auto simp: startsWith_iff)
  have e: "Seqs [Opt (Chr CR), Chr LF, Lit ''---'', Opt (Chr CR), Opt (Chr LF)] =
      Seq (Opt (Chr CR)) (Seq (Chr LF) (Seq (Lit ''---'') (Seq (Opt (Chr CR)) (Opt (Chr LF)))))"
    by simp
  show ?thesis
    unfolding e matcher_newline a todo_adv by (metis b)
qed

lemma if_not_None: "((if A then X else None) \<noteq> None) = (A \<and> X \<noteq> None)"
  by simp

lemma matcher_fm_body:
  "matcher ml (Seq (Grp 1 (LazyStar AnyChar))
       (Seqs [Opt (Chr CR), Chr LF, Lit ''---'', Opt (Chr CR), Opt (Chr LF)])) s Some \<noteq> None \<longleftrightarrow>
     (\<exists>j\<le>length (todo s). \<exists>nl. is_newline nl \<and> startsWith (drop j (todo s)) (nl @ ''---''))"
proof -
  have "(\<exists>x\<in>set (map (\<lambda>j. adv j s) [0..<Suc (length (todo s))]). P (todo x)) \<longleftrightarrow>
      (\<exists>j\<le>length (todo s). P (drop j (todo s)))" for P
    by (simp only: set_map set_upt) (force simp: less_Suc_eq_le)
  from this [of "\<lambda>t. \<exists>nl. is_newline nl \<and> startsWith t (nl @ ''---'')"]
  show ?thesis
    unfolding matcher.simps(4) [of ml "Grp 1 (LazyStar AnyChar)"] matcher.simps(6)
      matcher_LazyStar_AnyChar first_some_ex matcher_fm_close
    by simp
qed

lemma frontmatter_pat_unfold:
  "frontmatter_pat =
     Seq Bol (Seq (Lit ''---'') (Seq (Opt (Chr CR)) (Seq (Chr LF)
       (Seq (Grp 1 (LazyStar AnyChar))
          (Seqs [Opt (Chr CR), Chr LF, Lit ''---'', Opt (Chr CR), Opt (Chr LF)])))))"
  by (simp add: frontmatter_pat_def)

lemma match_at_frontmatter:
  "match_at False frontmatter_pat [] doc \<noteq> None \<longleftrightarrow>
     (\<exists>nl1 body nl2 rest. doc = ''---'' @ nl1 @ body @ nl2 @ ''---'' @ rest \<and>
        is_newline nl1 \<and> is_newline nl2)"
proof -
  define s0 where "s0 = \<lparr>seen = [], todo = doc, caps = (\<lambda>_. None)\<rparr>"
  have s0: "seen s0 = []" "todo s0 = doc"
    by (simp_all add: s0_def)
  have "match_at False frontmatter_pat [] doc \<noteq> None \<longleftrightarrow>
      startsWith doc ''---'' \<and>
      (\<exists>nl1. is_newline nl1 \<and> startsWith (drop 3 doc) nl1 \<and>
         (\<exists>j\<le>length (drop (length nl1) (drop 3 doc)).
            \<exists>nl2. is_newline nl2 \<and>
              startsWith (drop j (drop (length nl1) (drop 3 doc))) (nl2 @ ''---'')))"
    unfolding match_at_def s0_def [symmetric] frontmatter_pat_unfold
      matcher.simps(4) [of False Bol] matcher.simps(7)
      matcher.simps(4) [of False "Lit ''---''"] matcher_Lit
      if_not_None matcher_newline matcher_fm_body
    by (simp add: at_bol_def s0 numeral_3_eq_3 del: Lit.simps Seqs.simps)
  also have "\<dots> \<longleftrightarrow>
     (\<exists>nl1 body nl2 rest. doc = ''---'' @ nl1 @ body @ nl2 @ ''---'' @ rest \<and>
        is_newline nl1 \<and> is_newline nl2)" (is "?L \<longleftrightarrow> ?R")
  proof
    assume ?L
    then obtain d1 where d1: "doc = ''---'' @ d1"
      by (auto simp: startsWith_iff)
    with \<open>?L\<close> obtain nl1 j nl2 where nl: "is_newline nl1" "is_newline nl2"
      and a: "startsWith d1 nl1" and b: "startsWith (drop j (drop (length nl1) d1)) (nl2 @ ''---'')"
      by auto
    from a obtain d2 where d2: "d1 = nl1 @ d2"
      by (auto simp: startsWith_iff)
    from b obtain rest where r: "drop j d2 = nl2 @ ''---'' @ rest"
      unfolding d2 by (auto simp: startsWith_iff)
    have "d2 = take j d2 @ nl2 @ ''---'' @ rest"
      using r by (metis append_take_drop_id)
    then have "doc = ''---'' @ nl1 @ take j d2 @ nl2 @ ''---'' @ rest"
      using d1 d2 by simp
    with nl show ?R by blast
  next
    assume ?R
    then obtain nl1 body nl2 rest where d: "doc = ''---'' @ nl1 @ body @ nl2 @ ''---'' @ rest"
      and nl: "is_newline nl1" "is_newline nl2"
      by blast
    have 1: "startsWith doc ''---''"
      unfolding d startsWith_iff by blast
    have 2: "drop 3 doc = nl1 @ body @ nl2 @ ''---'' @ rest"
      unfolding d by simp
    have 3: "startsWith (drop 3 doc) nl1"
      unfolding 2 startsWith_iff by blast
    have 4: "drop (length body) (drop (length nl1) (drop 3 doc)) = (nl2 @ ''---'') @ rest"
      unfolding 2 by simp
    have 5: "startsWith (drop (length body) (drop (length nl1) (drop 3 doc))) (nl2 @ ''---'')"
      unfolding 4 startsWith_iff by blast
    have 6: "length body \<le> length (drop (length nl1) (drop 3 doc))"
      unfolding 2 by simp
    show ?L
      using 1 3 5 6 nl by blast
  qed
  finally show ?thesis .
qed

lemma exec_Bol_inner: "bef \<noteq> [] \<Longrightarrow> exec False (Seq Bol r) bef inp = None"
proof (induction inp arbitrary: bef)
  case Nil
  then show ?case
    by (cases bef) (simp_all add: match_at_def at_bol_def)
next
  case (Cons c cs)
  have "match_at False (Seq Bol r) bef (c # cs) = None"
    using Cons(2) by (cases bef) (simp_all add: match_at_def at_bol_def)
  then show ?case
    using Cons(1) [of "c # bef"] by simp
qed

lemma exec_Bol:
  "exec False (Seq Bol r) [] inp =
     (case match_at False (Seq Bol r) [] inp of None \<Rightarrow> None | Some e \<Rightarrow> Some ([], e))"
  by (cases inp) (simp_all add: exec_Bol_inner split: option.splits)

lemma recognizes_iff:
  "recognizes_frontmatter doc \<longleftrightarrow>
     (\<exists>nl1 body nl2 rest. doc = ''---'' @ nl1 @ body @ nl2 @ ''---'' @ rest \<and>
        is_newline nl1 \<and> is_newline nl2)"
proof -
  have "recognizes_frontmatter doc \<longleftrightarrow> match_at False frontmatter_pat [] doc \<noteq> None"
    unfolding recognizes_frontmatter_def
    by (subst (1) frontmatter_pat_unfold, subst exec_Bol, fold frontmatter_pat_unfold)
       (simp split: option.splits)
  then show ?thesis
    by (simp only: match_at_frontmatter)
qed

lemma parse_string_total: "\<exists>h. parse (JString c) = Inr h"
  by (simp add: parse_def falsy_def typeof_string_def)

lemma parseDocument_unrecognized:
  assumes "\<not> recognizes_frontmatter doc"
  shows "\<exists>d. parseDocument (JString doc) = Inr d \<and> frontmatter d = Map.empty \<and> rawContent d = doc"
proof (cases "doc = []")
  case True
  then show ?thesis
    by (simp add: parseDocument_def falsy_def)
next
  case False
  from assms have n: "exec False frontmatter_pat [] doc = None"
    by (simp add: recognizes_frontmatter_def split: option.splits)
  obtain h where "parse (JString doc) = Inr h"
    using parse_string_total by blast
  with False n show ?thesis
    by (simp add: parseDocument_def falsy_def typeof_string_def)
qed

section \<open>Passes as left-to-right rewriting\<close>

declare rewrite.simps [simp del]

lemma replace_all_rewrite:
  assumes st: "\<And>bef inp. step (prev_of bef) inp =
      map_option (\<lambda>e. (f (take (length inp - length (todo e)) inp) e, todo e)) (match_at ml r bef inp)"
  shows "replace_all ml r f bef inp = rewrite step (prev_of bef) inp"
proof (induction "length inp" arbitrary: inp bef rule: less_induct)
  case less
  have p: "prev_of (c # b) = Some c" for c b
    by (simp add: prev_of_def)
  show ?case
  proof (cases "match_at ml r bef inp")
    case None
    then have s: "step (prev_of bef) inp = None"
      by (simp add: st)
    show ?thesis
    proof (cases inp)
      case Nil
      with None s show ?thesis
        by (subst replace_all.simps, subst rewrite.simps) simp
    next
      case (Cons c cs)
      have "replace_all ml r f (c # bef) cs = rewrite step (prev_of (c # bef)) cs"
        by (rule less) (simp add: Cons)
      with None s Cons show ?thesis
        by (subst replace_all.simps, subst rewrite.simps) (simp add: p)
    qed
  next
    case (Some e)
    then have s: "step (prev_of bef) inp =
        Some (f (take (length inp - length (todo e)) inp) e, todo e)"
      by (simp add: st)
    show ?thesis
    proof (cases "length (todo e) < length inp")
      case True
      define m where "m = length inp - length (todo e)"
      have m: "0 < m" "m \<le> length inp"
        using True by (simp_all add: m_def)
      have "rev (take m inp) \<noteq> []"
        using m by auto
      then have "prev_of (rev (take m inp) @ bef) = Some (hd (rev (take m inp)))"
        by (cases "rev (take m inp)") (simp_all add: prev_of_def)
      also have "hd (rev (take m inp)) = last (take m inp)"
        by (rule hd_rev)
      also have "last (take m inp) = inp ! (m - 1)"
      proof -
        have ne: "take m inp \<noteq> []"
          using m by auto
        have "length (take m inp) = m"
          using m by simp
        then have "last (take m inp) = take m inp ! (m - 1)"
          using last_conv_nth [OF ne] by simp
        also have "\<dots> = inp ! (m - 1)"
          using m by (intro nth_take) simp
        finally show ?thesis .
      qed
      finally have pv: "prev_of (rev (take m inp) @ bef) = Some (inp ! (m - 1))" .
      have ih: "replace_all ml r f (rev (take m inp) @ bef) (todo e) =
          rewrite step (prev_of (rev (take m inp) @ bef)) (todo e)"
        by (rule less) (rule True)
      show ?thesis
        using Some s True ih
        by (subst replace_all.simps, subst rewrite.simps) (simp add: pv m_def [symmetric])
    next
      case False
      show ?thesis
      proof (cases inp)
        case Nil
        with Some s False show ?thesis
          by (subst replace_all.simps, subst rewrite.simps) simp
      next
        case (Cons c cs)
        have "replace_all ml r f (c # bef) cs = rewrite step (prev_of (c # bef)) cs"
          by (rule less) (simp add: Cons)
        moreover have "length inp - length (todo e) = 0"
          using False by simp
        ultimately show ?thesis
          using Some s False Cons
          by (subst replace_all.simps, subst rewrite.simps) (simp add: p)
      qed
    qed
  qed
qed



section \<open>The headings pass\<close>

lemma run_append_all: "list_all P xs \<Longrightarrow> run P (xs @ ys) = length xs + run P ys"
  by (induction xs) (auto simp: run_def)

lemma run_Cons_not: "\<not> P y \<Longrightarrow> run P (y # ys) = 0"
  by (simp add: run_def)

lemma run_Nil [simp]: "run P [] = 0"
  by (simp add: run_def)

lemma take_run_all: "j \<le> run P xs \<Longrightarrow> list_all P (take j xs)"
proof (induction xs arbitrary: j)
  case Nil
  then show ?case by simp
next
  case (Cons x xs)
  then show ?case
    by (cases j) (auto simp: run_def split: if_splits)
qed

lemma all_eq_replicate: "list_all (\<lambda>x. x = c) xs \<Longrightarrow> xs = replicate (length xs) c"
  by (induction xs) auto

lemma run_pos_iff: "0 < run P xs \<longleftrightarrow> (\<exists>c cs. xs = c # cs \<and> P c)"
  by (cases xs) (auto simp: run_def)

lemma first_some_hd: "k x = Some t \<Longrightarrow> first_some k (x # xs) = Some t"
  by simp

lemma rev_upt_top: "mn \<le> n \<Longrightarrow> rev [mn..<Suc n] = n # rev [mn..<n]"
  by simp

lemma single_hash: "single (Chr CHR ''#'') is_hash"
  by (auto simp: single_def is_hash_def)

lemma single_space: "single (Cls is_space) is_space"
  by (simp add: single_def)

lemma single_Dot: "single Dot not_lt"
  by (auto simp: single_def Dot_def not_lt_def)

lemma take_diff_drop: "j \<le> length xs \<Longrightarrow> take (length xs - length (drop j xs)) xs = take j xs"
  by simp

lemma first_some_map: "first_some f (map g xs) = first_some (\<lambda>x. f (g x)) xs"
  by (induction xs) (auto split: option.splits)

lemma first_some_cong: "(\<And>x. x \<in> set xs \<Longrightarrow> f x = h x) \<Longrightarrow> first_some f xs = first_some h xs"
  by (induction xs) (auto split: option.splits)

text \<open>A capture group around a repetition of one character.\<close>

lemma matcher_Grp_rep:
  assumes "single r P" and "case mx of None \<Rightarrow> True | Some m \<Rightarrow> mn \<le> m"
  shows "matcher ml (Grp n (Rep mn mx g r)) s k =
     first_some (\<lambda>j. k ((adv j s)\<lparr>caps := (caps s)(n \<mapsto> take j (todo s))\<rparr>))
       ((if g then rev else id) [mn..<Suc (rep_top mx (run P (todo s)))])"
proof -
  have le: "j \<in> set ((if g then rev else id) [mn..<Suc (rep_top mx (run P (todo s)))]) \<Longrightarrow>
      j \<le> length (todo s)" for j
    using run_le [of P "todo s"] by (cases mx) (auto simp: rep_top_def split: if_splits)
  have "matcher ml (Grp n (Rep mn mx g r)) s k =
      first_some (\<lambda>s'. k (s'\<lparr>caps := (caps s')(n \<mapsto> take (length (todo s) - length (todo s')) (todo s))\<rparr>))
        (map (\<lambda>j. adv j s) ((if g then rev else id) [mn..<Suc (rep_top mx (run P (todo s)))]))"
    unfolding matcher.simps(6) by (rule rep_single [OF assms])
  also have "\<dots> = first_some (\<lambda>j. k ((adv j s)\<lparr>caps := (caps s)(n \<mapsto> take j (todo s))\<rparr>))
       ((if g then rev else id) [mn..<Suc (rep_top mx (run P (todo s)))])"
    unfolding first_some_map by (rule first_some_cong) (use le in simp)
  finally show ?thesis .
qed

lemma heading_pat_unfold:
  "heading_pat =
     Seq Bol (Seq (Grp 1 (Rep 1 (Some 6) True (Chr CHR ''#'')))
       (Seq (Plus (Cls is_space)) (Grp 2 (Plus Dot))))"
  by (simp add: heading_pat_def)

lemma heading_content:
  "matcher ml (Grp 2 (Plus Dot)) s Some =
     (if run not_lt (todo s) = 0 then None
      else Some ((adv (run not_lt (todo s)) s)
                   \<lparr>caps := (caps s)(2 \<mapsto> take (run not_lt (todo s)) (todo s))\<rparr>))"
proof (cases "run not_lt (todo s)")
  case 0
  then show ?thesis
    by (subst matcher_Grp_rep [OF single_Dot]) (simp_all add: rep_top_def)
next
  case (Suc m)
  then show ?thesis
    by (subst matcher_Grp_rep [OF single_Dot]) (simp_all add: rep_top_def)
qed

lemma heading_space:
  "matcher ml (Seq (Plus (Cls is_space)) (Grp 2 (Plus Dot))) s Some =
     first_some (\<lambda>i. matcher ml (Grp 2 (Plus Dot)) (adv i s) Some)
       (rev [1..<Suc (run is_space (todo s))])"
  unfolding matcher.simps(4)
  by (subst rep_single [OF single_space]) (simp_all add: rep_top_def first_some_map)

lemma heading_match:
  "match_at True heading_pat bef inp =
     (if line_start bef then
        first_some
          (\<lambda>j. matcher True (Seq (Plus (Cls is_space)) (Grp 2 (Plus Dot)))
                 ((adv j \<lparr>seen = bef, todo = inp, caps = (\<lambda>_. None)\<rparr>)
                    \<lparr>caps := (\<lambda>_. None)(1 \<mapsto> take j inp)\<rparr>) Some)
          (rev [1..<Suc (min 6 (run is_hash inp))])
      else None)"
proof -
  have b: "at_bol True \<lparr>seen = bef, todo = inp, caps = (\<lambda>_. None)\<rparr> = line_start bef"
    by (cases bef) (simp_all add: at_bol_def line_start_def)
  show ?thesis
    unfolding match_at_def heading_pat_unfold matcher.simps(4) [of True Bol] matcher.simps(7) b
      matcher.simps(4) [of True "Grp 1 (Rep 1 (Some 6) True (Chr CHR ''#''))"]
    by (subst matcher_Grp_rep [OF single_hash]) (simp_all add: rep_top_def)
qed

lemma heading_at_iff:
  "heading_at bef inp \<longleftrightarrow>
     line_start bef \<and>
     (\<exists>j i. 1 \<le> j \<and> j \<le> 6 \<and> j \<le> run is_hash inp \<and>
            1 \<le> i \<and> i \<le> run is_space (drop j inp) \<and>
            0 < run not_lt (drop i (drop j inp)))"
proof -
  have "heading_at bef inp \<longleftrightarrow> match_at True heading_pat bef inp \<noteq> None"
    by (simp add: heading_at_def split: option.splits)
  also have "\<dots> \<longleftrightarrow> line_start bef \<and>
     (\<exists>j\<in>{1..<Suc (min 6 (run is_hash inp))}.
        \<exists>i\<in>{1..<Suc (run is_space (drop j inp))}.
          0 < run not_lt (drop i (drop j inp)))"
    unfolding heading_match heading_space if_not_None first_some_ex heading_content
    by (simp del: upt_Suc)
  also have "\<dots> \<longleftrightarrow> line_start bef \<and>
     (\<exists>j i. 1 \<le> j \<and> j \<le> 6 \<and> j \<le> run is_hash inp \<and>
            1 \<le> i \<and> i \<le> run is_space (drop j inp) \<and>
            0 < run not_lt (drop i (drop j inp)))"
    by (simp add: Bex_def less_Suc_eq_le conj_ac) (metis (no_types, opaque_lifting))
  finally show ?thesis .
qed

lemma hashes_replicate: "list_all is_hash (replicate n CHR ''#'')"
  by (induction n) (simp_all add: is_hash_def)

lemma space_not_hash: "is_space c \<Longrightarrow> \<not> is_hash c"
  by (auto simp: is_space_def is_hash_def)

lemma space_or_not_lt: "\<not> is_space c \<Longrightarrow> not_lt c"
  by (auto simp: is_space_def is_lt_def not_lt_def)

lemma heading_at_shape:
  "heading_at bef inp \<longleftrightarrow>
     line_start bef \<and>
     (\<exists>n ws c rest. inp = replicate n CHR ''#'' @ ws @ c # rest \<and> 1 \<le> n \<and> n \<le> 6 \<and>
        ws \<noteq> [] \<and> list_all is_space ws \<and> \<not> is_lt c)"
  (is "_ \<longleftrightarrow> _ \<and> ?R")
proof -
  have "(\<exists>j i. 1 \<le> j \<and> j \<le> 6 \<and> j \<le> run is_hash inp \<and>
            1 \<le> i \<and> i \<le> run is_space (drop j inp) \<and>
            0 < run not_lt (drop i (drop j inp))) \<longleftrightarrow> ?R" (is "?L \<longleftrightarrow> _")
  proof
    assume ?L
    then obtain j i where j: "1 \<le> j" "j \<le> 6" "j \<le> run is_hash inp"
      and i: "1 \<le> i" "i \<le> run is_space (drop j inp)"
      and c: "0 < run not_lt (drop i (drop j inp))"
      by blast
    have lj: "length (take j inp) = j"
      using j(3) run_le [of is_hash inp] by simp
    have "list_all (\<lambda>x. x = CHR ''#'') (take j inp)"
      using take_run_all [OF j(3)] by (simp add: is_hash_def [abs_def])
    from all_eq_replicate [OF this] have 1: "take j inp = replicate j CHR ''#''"
      using lj by simp
    define ws where "ws = take i (drop j inp)"
    have li: "length ws = i"
      using i(2) run_le [of is_space "drop j inp"] by (simp add: ws_def)
    have 2: "list_all is_space ws"
      unfolding ws_def by (rule take_run_all [OF i(2)])
    have 3: "ws \<noteq> []"
      using li i(1) by auto
    obtain c rest where 4: "drop i (drop j inp) = c # rest" and 5: "not_lt c"
      using c by (auto simp: run_pos_iff)
    have "inp = take j inp @ take i (drop j inp) @ drop i (drop j inp)"
      by (simp only: append_take_drop_id)
    then have "inp = replicate j CHR ''#'' @ ws @ c # rest"
      unfolding 1 ws_def 4 .
    with j 2 3 5 show ?R
      unfolding not_lt_def by blast
  next
    assume ?R
    then obtain n ws c rest where inp: "inp = replicate n CHR ''#'' @ ws @ c # rest"
      and n: "1 \<le> n" "n \<le> 6" and ws: "ws \<noteq> []" "list_all is_space ws" and c: "\<not> is_lt c"
      by blast
    have 1: "n \<le> run is_hash inp"
      unfolding inp by (simp add: run_append_all [OF hashes_replicate])
    have d: "drop n inp = ws @ c # rest"
      unfolding inp by simp
    have 2: "length ws \<le> run is_space (drop n inp)"
      unfolding d by (simp add: run_append_all [OF ws(2)])
    have 3: "0 < run not_lt (drop (length ws) (drop n inp))"
      unfolding d using c by (simp add: run_pos_iff not_lt_def)
    have 4: "1 \<le> length ws"
      using ws(1) by (cases ws) simp_all
    show ?L
      using n 1 2 3 4 by blast
  qed
  then show ?thesis
    unfolding heading_at_iff by simp
qed

lemma heading_single_match:
  assumes n: "1 \<le> n" "n \<le> 6"
    and ws: "ws \<noteq> []" "list_all is_space ws"
    and ct: "cont \<noteq> []" "\<not> is_space (hd cont)" "list_all not_lt cont"
    and ls: "line_start bef"
  shows "\<exists>e. match_at True heading_pat bef (replicate n CHR ''#'' @ ws @ cont) = Some e \<and>
           todo e = [] \<and> cap e 1 = replicate n CHR ''#'' \<and> cap e 2 = cont"
proof -
  define inp where "inp = replicate n CHR ''#'' @ ws @ cont"
  define s0 where "s0 = \<lparr>seen = bef, todo = inp, caps = (\<lambda>_. None)\<rparr>"
  define s1 where "s1 = (adv n s0)\<lparr>caps := (\<lambda>_. None)(1 \<mapsto> take n inp)\<rparr>"
  define e where "e = (adv (length cont) (adv (length ws) s1))
      \<lparr>caps := (caps (adv (length ws) s1))(2 \<mapsto> take (length cont) (todo (adv (length ws) s1)))\<rparr>"
  obtain w ws' where w: "ws = w # ws'" "is_space w"
    using ws by (cases ws) auto
  obtain c cs where c: "cont = c # cs" "\<not> is_space c"
    using ct by (cases cont) auto
  have h: "run is_hash inp = n"
    unfolding inp_def w(1) using space_not_hash [OF w(2)]
    by (simp add: run_append_all [OF hashes_replicate] run_Cons_not)
  have t1: "todo s1 = ws @ cont"
    by (simp add: s1_def s0_def inp_def)
  have sp: "run is_space (todo s1) = length ws"
    unfolding t1 c(1) using c(2) by (simp add: run_append_all [OF ws(2)] run_Cons_not)
  have t2: "todo (adv (length ws) s1) = cont"
    by (simp add: t1)
  have nl: "run not_lt (todo (adv (length ws) s1)) = length cont"
    unfolding t2 using ct(3) by (simp only: run_all)
  have lc: "length cont \<noteq> 0" and lw: "1 \<le> length ws"
    using ct(1) ws(1) by (cases cont; cases ws; simp)+
  have m2: "matcher True (Grp 2 (Plus Dot)) (adv (length ws) s1) Some = Some e"
    unfolding heading_content nl e_def using lc by simp
  have m1: "matcher True (Seq (Plus (Cls is_space)) (Grp 2 (Plus Dot))) s1 Some = Some e"
    unfolding heading_space sp rev_upt_top [OF lw]
    by (rule first_some_hd [of "\<lambda>i. matcher True (Grp 2 (Plus Dot)) (adv i s1) Some" "length ws", OF m2])
  have k: "(\<lambda>j. matcher True (Seq (Plus (Cls is_space)) (Grp 2 (Plus Dot)))
                 ((adv j s0)\<lparr>caps := (\<lambda>_. None)(1 \<mapsto> take j inp)\<rparr>) Some) n = Some e"
    using m1 by (simp add: s1_def)
  have fs: "first_some (\<lambda>j. matcher True (Seq (Plus (Cls is_space)) (Grp 2 (Plus Dot)))
                 ((adv j s0)\<lparr>caps := (\<lambda>_. None)(1 \<mapsto> take j inp)\<rparr>) Some)
              (n # rev [1..<n]) = Some e"
    by (rule first_some_hd
        [of "\<lambda>j. matcher True (Seq (Plus (Cls is_space)) (Grp 2 (Plus Dot)))
                 ((adv j s0)\<lparr>caps := (\<lambda>_. None)(1 \<mapsto> take j inp)\<rparr>) Some" n e])
       (rule k)
  have m0: "match_at True heading_pat bef inp = Some e"
    unfolding heading_match h s0_def [symmetric] using ls n fs
    by (simp only: if_True min_absorb2 rev_upt_top [OF n(1)])
  have "todo e = []"
    by (simp add: e_def t1)
  moreover have "cap e 1 = replicate n CHR ''#''"
    by (simp add: e_def cap_def s1_def inp_def)
  moreover have "cap e 2 = cont"
    by (simp add: e_def cap_def t1)
  ultimately show ?thesis
    using m0 unfolding inp_def by blast
qed

lemma heading_needs_hash: "run is_hash inp = 0 \<Longrightarrow> match_at True heading_pat bef inp = None"
  unfolding heading_match by simp

lemma parseHeadings_single:
  assumes n: "1 \<le> n" "n \<le> 6"
    and ws: "ws \<noteq> []" "list_all is_space ws"
    and cn: "cont \<noteq> []" "\<not> is_space (hd cont)" "list_all not_lt cont"
  shows "parseHeadings (replicate n CHR ''#'' @ ws @ cont) =
     ''<h'' @ str_of_nat n @ ''>'' @ trim cont @ ''</h'' @ str_of_nat n @ ''>''"
proof -
  define inp where "inp = replicate n CHR ''#'' @ ws @ cont"
  have ls: "line_start []"
    by (simp add: line_start_def)
  from heading_single_match [OF n ws cn ls]
  obtain e where m: "match_at True heading_pat [] inp = Some e"
    and e: "todo e = []" "cap e 1 = replicate n CHR ''#''" "cap e 2 = cont"
    unfolding inp_def by blast
  have len: "0 < length inp"
    using ws(1) by (simp add: inp_def)
  have "replace_all True heading_pat heading_html [] inp =
      heading_html (take (length inp) inp) e @
      replace_all True heading_pat heading_html (rev (take (length inp) inp) @ []) (drop (length inp) inp)"
    by (rule replace_all_match [OF m _ len]) (simp_all add: e)
  also have "replace_all True heading_pat heading_html (rev (take (length inp) inp) @ [])
      (drop (length inp) inp) = []"
    by (simp add: replace_all_Nil heading_needs_hash)
  finally have r: "replace_all True heading_pat heading_html [] inp =
      heading_html (take (length inp) inp) e"
    by simp
  have hh: "heading_html m e =
      ''<h'' @ str_of_nat n @ ''>'' @ trim cont @ ''</h'' @ str_of_nat n @ ''>''" for m
    unfolding heading_html_def Let_def e by (simp del: str_of_nat.simps)
  show ?thesis
    unfolding parseHeadings_def inp_def [symmetric] r hh ..
qed

lemma parseHeadings_no_hash:
  "CHR ''#'' \<notin> set inp \<Longrightarrow> replace_all True heading_pat heading_html bef inp = inp"
proof (induction inp arbitrary: bef)
  case Nil
  show ?case
    by (simp add: replace_all_Nil heading_needs_hash)
next
  case (Cons c cs)
  then have "run is_hash (c # cs) = 0"
    by (auto simp: run_def is_hash_def)
  then have "match_at True heading_pat bef (c # cs) = None"
    by (rule heading_needs_hash)
  from replace_all_no_match [OF this] Cons show ?case
    by simp
qed


lemma take_run: "take (run P xs) xs = takeWhile P xs"
  unfolding run_def by (rule takeWhile_eq_take [symmetric])

lemma drop_below_run: "j < run P xs \<Longrightarrow> \<exists>y ys. drop j xs = y # ys \<and> P y"
proof (induction xs arbitrary: j)
  case Nil
  then show ?case by simp
next
  case (Cons x xs)
  then show ?case
    by (cases j) (auto simp: run_def split: if_splits)
qed

lemma give_back_first_some:
  "first_some (\<lambda>i. if run not_lt (drop i t) = 0 then None else Some (F i)) (rev [1..<Suc w]) =
     map_option F (give_back w t)"
proof (induction w)
  case 0
  show ?case by simp
next
  case (Suc w)
  have r: "rev [1..<Suc (Suc w)] = Suc w # rev [1..<Suc w]"
    by (rule rev_upt_top) simp
  show ?case
    unfolding r first_some.simps Suc by simp
qed

lemma heading_below:
  assumes "j < run is_hash inp"
  shows "matcher True (Seq (Plus (Cls is_space)) (Grp 2 (Plus Dot)))
           ((adv j \<lparr>seen = bef, todo = inp, caps = (\<lambda>_. None)\<rparr>)
              \<lparr>caps := (\<lambda>_. None)(1 \<mapsto> take j inp)\<rparr>) Some = None"
proof -
  obtain y ys where d: "drop j inp = y # ys" and y: "is_hash y"
    using drop_below_run [OF assms] by blast
  have "\<not> is_space y"
    using y space_not_hash by blast
  then have "run is_space (drop j inp) = 0"
    unfolding d by (rule run_Cons_not)
  then show ?thesis
    unfolding heading_space by simp
qed

lemma heading_match_exact:
  "match_at True heading_pat bef inp =
     (if line_start bef \<and> 1 \<le> run is_hash inp \<and> run is_hash inp \<le> 6 then
        matcher True (Seq (Plus (Cls is_space)) (Grp 2 (Plus Dot)))
           ((adv (run is_hash inp) \<lparr>seen = bef, todo = inp, caps = (\<lambda>_. None)\<rparr>)
              \<lparr>caps := (\<lambda>_. None)(1 \<mapsto> take (run is_hash inp) inp)\<rparr>) Some
      else None)"
proof -
  define h where "h = run is_hash inp"
  define K where "K = (\<lambda>j. matcher True (Seq (Plus (Cls is_space)) (Grp 2 (Plus Dot)))
           ((adv j \<lparr>seen = bef, todo = inp, caps = (\<lambda>_. None)\<rparr>)
              \<lparr>caps := (\<lambda>_. None)(1 \<mapsto> take j inp)\<rparr>) Some)"
  have below: "j < h \<Longrightarrow> K j = None" for j
    unfolding K_def h_def by (rule heading_below)
  have m: "match_at True heading_pat bef inp =
      (if line_start bef then first_some K (rev [1..<Suc (min 6 h)]) else None)"
    unfolding heading_match K_def h_def ..
  consider "h = 0" | "6 < h" | "1 \<le> h" "h \<le> 6"
    by linarith
  then have fs: "first_some K (rev [1..<Suc (min 6 h)]) = (if 1 \<le> h \<and> h \<le> 6 then K h else None)"
  proof cases
    case 1
    then show ?thesis by simp
  next
    case 2
    have "first_some K (rev [1..<Suc (min 6 h)]) = None"
      by (rule first_some_None) (use 2 below in auto)
    with 2 show ?thesis by simp
  next
    case 3
    have r: "first_some K (rev [1..<h]) = None"
      by (rule first_some_None) (use below in auto)
    have "min 6 h = h"
      using 3 by simp
    then have l: "rev [1..<Suc (min 6 h)] = h # rev [1..<h]"
      using rev_upt_top [OF 3(1)] by simp
    show ?thesis
      unfolding l first_some.simps r using 3 by (simp split: option.splits)
  qed
  have "match_at True heading_pat bef inp =
      (if line_start bef \<and> 1 \<le> h \<and> h \<le> 6 then K h else None)"
    unfolding m fs by (cases "line_start bef") simp_all
  then show ?thesis
    unfolding K_def h_def .
qed

lemma heading_rest:
  "matcher True (Seq (Plus (Cls is_space)) (Grp 2 (Plus Dot))) s Some =
     map_option
       (\<lambda>i. (adv (run not_lt (drop i (todo s))) (adv i s))
                \<lparr>caps := (caps s)(2 \<mapsto> take (run not_lt (drop i (todo s))) (drop i (todo s)))\<rparr>)
       (give_back (run is_space (todo s)) (todo s))"
  unfolding heading_space heading_content todo_adv caps_adv
  by (rule give_back_first_some)

lemma line_start_prev: "line_start bef \<longleftrightarrow> (case prev_of bef of None \<Rightarrow> True | Some c \<Rightarrow> is_lt c)"
  by (cases bef) (simp_all add: line_start_def prev_of_def)

lemma heading_step_match:
  "heading_step (prev_of bef) inp =
     map_option (\<lambda>e. (heading_html (take (length inp - length (todo e)) inp) e, todo e))
       (match_at True heading_pat bef inp)"
proof (cases "line_start bef \<and> 1 \<le> run is_hash inp \<and> run is_hash inp \<le> 6")
  case False
  then show ?thesis
    unfolding heading_match_exact heading_step_def line_start_prev [symmetric] heading_parts_def
    by (auto simp: Let_def)
next
  case True
  define h where "h = run is_hash inp"
  define t where "t = drop h inp"
  define s1 where "s1 = (adv h \<lparr>seen = bef, todo = inp, caps = (\<lambda>_. None)\<rparr>)
      \<lparr>caps := (\<lambda>_. None)(1 \<mapsto> take h inp)\<rparr>"
  have t1: "todo s1 = t" and c1: "caps s1 = (\<lambda>_. None)(1 \<mapsto> take h inp)"
    by (simp_all add: s1_def t_def)
  have hl: "length (take h inp) = h"
    using run_le [of is_hash inp] by (simp add: h_def)
  have m: "match_at True heading_pat bef inp =
      map_option
       (\<lambda>i. (adv (run not_lt (drop i t)) (adv i s1))
                \<lparr>caps := (caps s1)(2 \<mapsto> take (run not_lt (drop i t)) (drop i t))\<rparr>)
       (give_back (run is_space t) t)"
    unfolding heading_match_exact using True
    by (simp only: if_True h_def [symmetric] s1_def [symmetric] heading_rest t1 simp_thms)
  have p: "heading_parts inp =
      (case give_back (run is_space t) t of
         None \<Rightarrow> None
       | Some i \<Rightarrow> Some (h, takeWhile not_lt (drop i t), dropWhile not_lt (drop i t)))"
    unfolding t_def h_def using True by (simp add: heading_parts_def Let_def)
  show ?thesis
  proof (cases "give_back (run is_space t) t")
    case None
    then show ?thesis
      unfolding m heading_step_def p by simp
  next
    case (Some i)
    define e where "e = (adv (run not_lt (drop i t)) (adv i s1))
                \<lparr>caps := (caps s1)(2 \<mapsto> take (run not_lt (drop i t)) (drop i t))\<rparr>"
    have me: "match_at True heading_pat bef inp = Some e"
      unfolding m Some e_def by simp
    have te: "todo e = dropWhile not_lt (drop i t)"
      by (simp add: e_def t1 drop_run [symmetric] add.commute)
    have c2: "cap e 2 = takeWhile not_lt (drop i t)"
      by (simp add: e_def cap_def take_run)
    have c1': "cap e 1 = take h inp"
      by (simp add: e_def cap_def c1)
    have hh: "heading_html x e =
        ''<h'' @ str_of_nat h @ ''>'' @ trim (takeWhile not_lt (drop i t)) @ ''</h'' @ str_of_nat h @ ''>''" for x
      unfolding heading_html_def Let_def c1' c2 hl ..
    have ls: "(case prev_of bef of None \<Rightarrow> True | Some c \<Rightarrow> is_lt c)"
      using True line_start_prev by blast
    show ?thesis
      unfolding me heading_step_def p Some using ls by (simp add: hh te del: str_of_nat.simps)
  qed
qed

lemma parseHeadings_rewrite: "parseHeadings inp = rewrite heading_step None inp"
proof -
  have "replace_all True heading_pat heading_html [] inp = rewrite heading_step (prev_of []) inp"
    by (rule replace_all_rewrite) (rule heading_step_match)
  then show ?thesis
    by (simp add: parseHeadings_def prev_of_def)
qed

text \<open>
  C4, as the code has it.  The headings pass is a scan of the document from left to right.
  At the start of the document and right after a line terminator, when the text ahead is
  1 to 6 \<open>#\<close> (and no seventh), then white space, then a character that is no line
  terminator, the scan writes \<open><hn>\<close>, the trimmed content and \<open></hn>\<close> and goes on after
  the content, which runs to the end of its line; \<open>n\<close> is the number of \<open>#\<close>.  The white
  space is the longest run of white-space characters that leaves such a character after
  it, and a line break is white space, so the content may stand on a later line than the
  \<open>#\<close>.  Everywhere else the scan copies one character.  Three consequences are stated
  with it: where the heading pattern matches, what a text that is one heading becomes,
  and that a text without \<open>#\<close> is left as it is.
\<close>

theorem headings_pass:
  "parseHeadings doc = rewrite heading_step None doc \<and>
   (heading_at bef inp \<longleftrightarrow>
      line_start bef \<and>
      (\<exists>n ws c rest. inp = replicate n CHR ''#'' @ ws @ c # rest \<and> 1 \<le> n \<and> n \<le> 6 \<and>
         ws \<noteq> [] \<and> list_all is_space ws \<and> \<not> is_lt c)) \<and>
   (1 \<le> k \<and> k \<le> 6 \<and> sp \<noteq> [] \<and> list_all is_space sp \<and>
    cont \<noteq> [] \<and> \<not> is_space (hd cont) \<and> list_all not_lt cont \<longrightarrow>
      parseHeadings (replicate k CHR ''#'' @ sp @ cont) =
        ''<h'' @ str_of_nat k @ ''>'' @ trim cont @ ''</h'' @ str_of_nat k @ ''>'') \<and>
   (CHR ''#'' \<notin> set plain \<longrightarrow> parseHeadings plain = plain)"
proof -
  have "parseHeadings doc = rewrite heading_step None doc"
    by (rule parseHeadings_rewrite)
  moreover have "parseHeadings plain = plain" if "CHR ''#'' \<notin> set plain"
    using parseHeadings_no_hash [OF that] by (simp add: parseHeadings_def)
  ultimately show ?thesis
    using heading_at_shape parseHeadings_single by blast
qed

theorem headings_pass_witness:
  "parseHeadings ''##  Install  '' = ''<h2>Install</h2>'' \<and>
   parseHeadings ''plain text'' = ''plain text'' \<and>
   parseHeadings (''intro'' @ [LF] @ ''# Title'') = ''intro'' @ [LF] @ ''<h1>Title</h1>'' \<and>
   parseHeadings (''# A'' @ [LF] @ ''text'') = ''<h1>A</h1>'' @ [LF] @ ''text'' \<and>
   parseHeadings ''####### seven'' = ''####### seven'' \<and>
   parseHeadings ''a # b'' = ''a # b''"
proof -
  have a: "1 \<le> (2::nat) \<and> (2::nat) \<le> 6 \<and> ''  '' \<noteq> [] \<and> list_all is_space ''  '' \<and>
      ''Install  '' \<noteq> [] \<and> \<not> is_space (hd ''Install  '') \<and> list_all not_lt ''Install  ''"
    by code_simp
  have b: "CHR ''#'' \<notin> set ''plain text''"
    by simp
  have c: "replicate 2 CHR ''#'' @ ''  '' @ ''Install  '' = ''##  Install  ''"
    "''<h'' @ str_of_nat 2 @ ''>'' @ trim ''Install  '' @ ''</h'' @ str_of_nat 2 @ ''>'' = ''<h2>Install</h2>''"
    by code_simp+
  from headings_pass [where k = 2 and sp = "''  ''" and cont = "''Install  ''" and plain = "''plain text''"] a b
  have "parseHeadings (replicate 2 CHR ''#'' @ ''  '' @ ''Install  '') =
      ''<h'' @ str_of_nat 2 @ ''>'' @ trim ''Install  '' @ ''</h'' @ str_of_nat 2 @ ''>''"
    and "parseHeadings ''plain text'' = ''plain text''"
    by blast+
  then have 1: "parseHeadings ''##  Install  '' = ''<h2>Install</h2>''"
    and 2: "parseHeadings ''plain text'' = ''plain text''"
    unfolding c by blast+
  have "parseHeadings (''intro'' @ [LF] @ ''# Title'') = rewrite heading_step None (''intro'' @ [LF] @ ''# Title'')"
    using headings_pass [where doc = "''intro'' @ [LF] @ ''# Title''"] by blast
  also have "\<dots> = ''intro'' @ [LF] @ ''<h1>Title</h1>''"
    by code_simp
  finally have 3: "parseHeadings (''intro'' @ [LF] @ ''# Title'') = ''intro'' @ [LF] @ ''<h1>Title</h1>''" .
  have "parseHeadings (''# A'' @ [LF] @ ''text'') = rewrite heading_step None (''# A'' @ [LF] @ ''text'')"
    using headings_pass [where doc = "''# A'' @ [LF] @ ''text''"] by blast
  also have "\<dots> = ''<h1>A</h1>'' @ [LF] @ ''text''"
    by code_simp
  finally have 4: "parseHeadings (''# A'' @ [LF] @ ''text'') = ''<h1>A</h1>'' @ [LF] @ ''text''" .
  have "parseHeadings ''####### seven'' = rewrite heading_step None ''####### seven''"
    using headings_pass [where doc = "''####### seven''"] by blast
  also have "\<dots> = ''####### seven''"
    by code_simp
  finally have 5: "parseHeadings ''####### seven'' = ''####### seven''" .
  have "parseHeadings ''a # b'' = rewrite heading_step None ''a # b''"
    using headings_pass [where doc = "''a # b''"] by blast
  also have "\<dots> = ''a # b''"
    by code_simp
  finally have 6: "parseHeadings ''a # b'' = ''a # b''" .
  from 1 2 3 4 5 6 show ?thesis
    by blast
qed

theorem headings_pass_counterexample:
  "parseHeadings (''#'' @ [LF] @ ''Title'') = ''<h1>Title</h1>'' \<and>
   heading_at [] (''#'' @ [LF] @ ''Title'')"
proof -
  have "parseHeadings (''#'' @ [LF] @ ''Title'') = ''<h1>Title</h1>''"
    by code_simp
  moreover have "heading_at [] (''#'' @ [LF] @ ''Title'')"
    by code_simp
  ultimately show ?thesis by blast
qed

section \<open>The frontmatter block and what it yields\<close>

lemma matcher_Chr_seq:
  "matcher ml (Seq (Chr c) r) s k =
     (if startsWith (todo s) [c] then matcher ml r (adv 1 s) k else None)"
  by (cases "todo s") (auto simp: adv_def)

lemma matcher_newline_exact:
  "matcher ml (Seq (Opt (Chr CR)) (Seq (Chr LF) r)) s k =
     (if startsWith (todo s) [CR, LF] then matcher ml r (adv 2 s) k
      else if startsWith (todo s) [LF] then matcher ml r (adv 1 s) k
      else None)"
proof (cases "todo s")
  case Nil
  then show ?thesis
    unfolding matcher.simps(4) [of ml "Opt (Chr CR)"] matcher_Opt_Chr matcher_Chr_seq
    by simp
next
  case (Cons x xs)
  show ?thesis
  proof (cases "x = CR")
    case False
    with Cons show ?thesis
      unfolding matcher.simps(4) [of ml "Opt (Chr CR)"] matcher_Opt_Chr matcher_Chr_seq
      by simp
  next
    case True
    have a: "adv 1 (adv 1 s) = adv 2 s"
      by (simp add: numeral_2_eq_2)
    from True Cons show ?thesis
      unfolding matcher.simps(4) [of ml "Opt (Chr CR)"] matcher_Opt_Chr matcher_Chr_seq a
      using CR_neq_LF by (cases xs) (simp_all add: numeral_2_eq_2 split: option.splits)
  qed
qed

lemma matcher_Opt_Chr_Some:
  "matcher ml (Opt (Chr c)) s Some = Some (if startsWith (todo s) [c] then adv 1 s else s)"
  unfolding matcher_Opt_Chr by simp

lemma matcher_fm_end_exact:
  "matcher ml (Seq (Opt (Chr CR)) (Opt (Chr LF))) s Some = Some (adv (skip_len (todo s)) s)"
proof (cases "todo s")
  case Nil
  then show ?thesis
    unfolding matcher.simps(4) matcher_Opt_Chr_Some matcher_Opt_Chr
    by (simp add: skip_len_def)
next
  case (Cons x xs)
  have a: "adv 1 (adv 1 s) = adv 2 s"
    by (simp add: numeral_2_eq_2)
  from Cons show ?thesis
    unfolding matcher.simps(4) matcher_Opt_Chr_Some matcher_Opt_Chr a
    using CR_neq_LF by (cases xs) (auto simp: skip_len_def numeral_2_eq_2)
qed

lemma closes_cases:
  "closes t \<longleftrightarrow>
     (startsWith t [CR, LF] \<and> startsWith (drop 2 t) ''---'') \<or>
     (\<not> startsWith t [CR, LF] \<and> startsWith t [LF] \<and> startsWith (drop 1 t) ''---'')"
  using CR_neq_LF by (auto simp: closes_def startsWith_iff)

lemma matcher_fm_close_exact:
  "matcher ml (Seqs [Opt (Chr CR), Chr LF, Lit ''---'', Opt (Chr CR), Opt (Chr LF)]) s Some =
     (if closes (todo s)
      then Some (adv (close_len (todo s) + skip_len (drop (close_len (todo s)) (todo s))) s)
      else None)"
proof -
  have e: "Seqs [Opt (Chr CR), Chr LF, Lit ''---'', Opt (Chr CR), Opt (Chr LF)] =
      Seq (Opt (Chr CR)) (Seq (Chr LF) (Seq (Lit ''---'') (Seq (Opt (Chr CR)) (Opt (Chr LF)))))"
    by simp
  have a: "matcher ml (Seq (Lit ''---'') (Seq (Opt (Chr CR)) (Opt (Chr LF)))) s' Some =
      (if startsWith (todo s') ''---'' then Some (adv (3 + skip_len (drop 3 (todo s'))) s') else None)" for s'
    unfolding matcher.simps(4) [of ml "Lit ''---''"] matcher_Lit matcher_fm_end_exact
    by (simp add: numeral_3_eq_3)
  have cl: "startsWith t [CR, LF] \<Longrightarrow> close_len t = 5" "\<not> startsWith t [CR, LF] \<Longrightarrow> startsWith t [LF] \<Longrightarrow> close_len t = 4" for t
    using CR_neq_LF by (auto simp: close_len_def startsWith_iff)
  show ?thesis
    unfolding e matcher_newline_exact a closes_cases [of "todo s"]
    by (auto simp: cl add.commute)
qed

lemma find_close_first_some:
  "first_some (\<lambda>j. if closes (drop j t) then Some (F j) else None) [0..<Suc (length t)] =
     map_option F (find_close t)"
proof (induction t arbitrary: F)
  case Nil
  show ?case
    by (simp add: closes_def)
next
  case (Cons c cs)
  have u: "[0..<Suc (length (c # cs))] = 0 # map Suc [0..<Suc (length cs)]"
    by (simp only: map_Suc_upt length_Cons) (simp add: upt_conv_Cons del: upt_Suc)
  have "first_some (\<lambda>j. if closes (drop j (c # cs)) then Some (F j) else None) (map Suc [0..<Suc (length cs)]) =
      first_some (\<lambda>j. if closes (drop j cs) then Some (F (Suc j)) else None) [0..<Suc (length cs)]"
    unfolding first_some_map by simp
  also have "\<dots> = map_option (\<lambda>j. F (Suc j)) (find_close cs)"
    by (rule Cons)
  finally show ?case
    unfolding u by (simp add: option.map_comp comp_def del: upt_Suc)
qed

lemma matcher_fm_body_exact:
  "matcher ml (Seq (Grp 1 (LazyStar AnyChar))
       (Seqs [Opt (Chr CR), Chr LF, Lit ''---'', Opt (Chr CR), Opt (Chr LF)])) s Some =
     map_option
       (\<lambda>j. adv (close_len (drop j (todo s)) + skip_len (drop (close_len (drop j (todo s))) (drop j (todo s))))
               ((adv j s)\<lparr>caps := (caps s)(1 \<mapsto> take j (todo s))\<rparr>))
       (find_close (todo s))"
proof -
  have g: "matcher ml (Grp 1 (LazyStar AnyChar)) s k =
      first_some (\<lambda>j. k ((adv j s)\<lparr>caps := (caps s)(1 \<mapsto> take j (todo s))\<rparr>)) [0..<Suc (length (todo s))]" for k
    by (subst matcher_Grp_rep [OF single_AnyChar]) (simp_all add: rep_top_def run_True)
  have t: "todo ((adv j s)\<lparr>caps := c\<rparr>) = drop j (todo s)" for j c
    by simp
  show ?thesis
    unfolding matcher.simps(4) [of ml "Grp 1 (LazyStar AnyChar)"] g matcher_fm_close_exact t
    by (rule find_close_first_some)
qed

lemma fm_body_block:
  "(block_from (todo s) = None \<longrightarrow>
      matcher ml (Seq (Grp 1 (LazyStar AnyChar))
         (Seqs [Opt (Chr CR), Chr LF, Lit ''---'', Opt (Chr CR), Opt (Chr LF)])) s Some = None) \<and>
   (\<forall>body rest. block_from (todo s) = Some (body, rest) \<longrightarrow>
      (\<exists>e. matcher ml (Seq (Grp 1 (LazyStar AnyChar))
         (Seqs [Opt (Chr CR), Chr LF, Lit ''---'', Opt (Chr CR), Opt (Chr LF)])) s Some = Some e \<and>
         cap e 1 = body \<and> todo e = rest))"
proof (cases "find_close (todo s)")
  case None
  then show ?thesis
    unfolding matcher_fm_body_exact block_from_def by simp
next
  case (Some j)
  define t where "t = todo s"
  define cl where "cl = close_len (drop j t)"
  define sk where "sk = skip_len (drop cl (drop j t))"
  define e where "e = adv (cl + sk) ((adv j s)\<lparr>caps := (caps s)(1 \<mapsto> take j t)\<rparr>)"
  have m: "matcher ml (Seq (Grp 1 (LazyStar AnyChar))
         (Seqs [Opt (Chr CR), Chr LF, Lit ''---'', Opt (Chr CR), Opt (Chr LF)])) s Some = Some e"
    unfolding matcher_fm_body_exact Some e_def cl_def sk_def t_def by simp
  have d: "drop (j + cl) t = drop cl (drop j t)"
    by (simp add: add.commute)
  have b: "block_from (todo s) = Some (take j t, drop sk (drop cl (drop j t)))"
    using Some by (simp add: block_from_def Let_def t_def cl_def sk_def add.commute)
  have c: "cap e 1 = take j t"
    by (simp add: e_def cap_def)
  have r: "todo e = drop sk (drop cl (drop j t))"
    by (simp add: e_def t_def ac_simps)
  show ?thesis
    unfolding m b using c r by simp
qed

lemma startsWith_append_drop:
  "startsWith t (p @ q) \<longleftrightarrow> startsWith t p \<and> startsWith (drop (length p) t) q"
  by (auto simp: startsWith_iff)

lemma match_at_opening:
  "match_at False (Seq Bol (Seq (Lit ''---'') (Seq (Opt (Chr CR)) (Seq (Chr LF) r)))) [] doc =
     (if startsWith doc (''---'' @ [CR, LF]) then
        matcher False r (adv 5 \<lparr>seen = [], todo = doc, caps = (\<lambda>_. None)\<rparr>) Some
      else if startsWith doc (''---'' @ [LF]) then
        matcher False r (adv 4 \<lparr>seen = [], todo = doc, caps = (\<lambda>_. None)\<rparr>) Some
      else None)"
proof -
  define s0 where "s0 = \<lparr>seen = [], todo = doc, caps = (\<lambda>_. None)\<rparr>"
  have s0: "seen s0 = []" "todo s0 = doc"
    by (simp_all add: s0_def)
  have a: "adv 2 (adv 3 s0) = adv 5 s0" "adv 1 (adv 3 s0) = adv 4 s0"
    by simp_all
  have l: "length ''---'' = 3"
    by simp
  have bol: "at_bol False s0"
    by (simp add: at_bol_def s0)
  have "matcher False (Seq Bol (Seq (Lit ''---'') (Seq (Opt (Chr CR)) (Seq (Chr LF) r)))) s0 Some =
      (if startsWith doc ''---'' then
         (if startsWith (drop 3 doc) [CR, LF] then matcher False r (adv 5 s0) Some
          else if startsWith (drop 3 doc) [LF] then matcher False r (adv 4 s0) Some
          else None)
       else None)"
    unfolding matcher.simps(4) [of False Bol] matcher.simps(7)
      matcher.simps(4) [of False "Lit ''---''"] matcher_Lit
      matcher_newline_exact l a s0 todo_adv
    using bol by (simp only: if_True)
  then show ?thesis
    unfolding match_at_def s0_def [symmetric] startsWith_append_drop [of doc "''---''"] l
    by (cases "startsWith doc ''---''") (simp_all only: if_True if_False simp_thms)
qed

lemma exec_frontmatter:
  "(frontmatter_block doc = None \<longrightarrow> exec False frontmatter_pat [] doc = None) \<and>
   (\<forall>body rest. frontmatter_block doc = Some (body, rest) \<longrightarrow>
      (\<exists>e. exec False frontmatter_pat [] doc = Some ([], e) \<and> cap e 1 = body \<and> todo e = rest))"
proof -
  define s0 where "s0 = \<lparr>seen = [], todo = doc, caps = (\<lambda>_. None)\<rparr>"
  define M where "M s = matcher False (Seq (Grp 1 (LazyStar AnyChar))
         (Seqs [Opt (Chr CR), Chr LF, Lit ''---'', Opt (Chr CR), Opt (Chr LF)])) s Some" for s
  have t: "todo (adv n s0) = drop n doc" for n
    by (simp add: s0_def)
  have ex: "exec False frontmatter_pat [] doc =
      (case match_at False frontmatter_pat [] doc of None \<Rightarrow> None | Some e \<Rightarrow> Some ([], e))"
    by (subst (1) frontmatter_pat_unfold, subst exec_Bol, fold frontmatter_pat_unfold) simp
  have ma: "match_at False frontmatter_pat [] doc =
      (if startsWith doc (''---'' @ [CR, LF]) then M (adv 5 s0)
       else if startsWith doc (''---'' @ [LF]) then M (adv 4 s0)
       else None)"
    unfolding frontmatter_pat_unfold match_at_opening M_def s0_def ..
  have fb: "(block_from (todo s) = None \<longrightarrow> M s = None) \<and>
      (\<forall>body rest. block_from (todo s) = Some (body, rest) \<longrightarrow>
         (\<exists>e. M s = Some e \<and> cap e 1 = body \<and> todo e = rest))" for s
    unfolding M_def by (rule fm_body_block)
  consider (crlf) "startsWith doc (''---'' @ [CR, LF])"
    | (lf) "\<not> startsWith doc (''---'' @ [CR, LF])" "startsWith doc (''---'' @ [LF])"
    | (none) "\<not> startsWith doc (''---'' @ [CR, LF])" "\<not> startsWith doc (''---'' @ [LF])"
    by blast
  then show ?thesis
  proof cases
    case crlf
    then have b: "frontmatter_block doc = block_from (todo (adv 5 s0))"
      unfolding t by (simp add: frontmatter_block_def)
    from crlf have m: "match_at False frontmatter_pat [] doc = M (adv 5 s0)"
      unfolding ma by (simp only: if_True)
    show ?thesis
      unfolding ex m b using fb [of "adv 5 s0"]
      by (cases "block_from (todo (adv 5 s0))") auto
  next
    case lf
    then have b: "frontmatter_block doc = block_from (todo (adv 4 s0))"
      unfolding t by (simp add: frontmatter_block_def)
    from lf have m: "match_at False frontmatter_pat [] doc = M (adv 4 s0)"
      unfolding ma by (simp only: if_True if_False)
    show ?thesis
      unfolding ex m b using fb [of "adv 4 s0"]
      by (cases "block_from (todo (adv 4 s0))") auto
  next
    case none
    then have b: "frontmatter_block doc = None"
      by (simp add: frontmatter_block_def)
    from none have m: "match_at False frontmatter_pat [] doc = None"
      unfolding ma by (simp only: if_False)
    show ?thesis
      unfolding ex m b by simp
  qed
qed

lemma recognizes_block: "recognizes_frontmatter doc \<longleftrightarrow> frontmatter_block doc \<noteq> None"
proof (cases "frontmatter_block doc")
  case None
  then show ?thesis
    using exec_frontmatter [of doc] by (simp add: recognizes_frontmatter_def)
next
  case (Some p)
  then show ?thesis
    using exec_frontmatter [of doc] by (cases p) (auto simp: recognizes_frontmatter_def)
qed

lemma parse_of_string: "parse (JString c) = Inr (if c = [] then [] else render c)"
  by (simp add: parse_def falsy_def typeof_string_def)

lemma parseDocument_block:
  "\<exists>d. parseDocument (JString doc) = Inr d \<and>
       frontmatter d = (case frontmatter_block doc of None \<Rightarrow> Map.empty
                        | Some (body, rest) \<Rightarrow> parseFrontmatter body) \<and>
       rawContent d = (case frontmatter_block doc of None \<Rightarrow> doc
                       | Some (body, rest) \<Rightarrow> trim rest) \<and>
       parse (JString (rawContent d)) = Inr (content d)"
proof (cases "doc = []")
  case True
  then show ?thesis
    by (simp add: parseDocument_def falsy_def frontmatter_block_def parse_of_string)
next
  case False
  show ?thesis
  proof (cases "frontmatter_block doc")
    case None
    then have "exec False frontmatter_pat [] doc = None"
      using exec_frontmatter [of doc] by simp
    with False None show ?thesis
      by (simp add: parseDocument_def falsy_def typeof_string_def parse_of_string)
  next
    case (Some p)
    obtain body rest where p: "p = (body, rest)"
      by (cases p)
    with Some obtain e where e: "exec False frontmatter_pat [] doc = Some ([], e)"
        "cap e 1 = body" "todo e = rest"
      using exec_frontmatter [of doc] by auto
    from False Some p e show ?thesis
      by (simp add: parseDocument_def falsy_def typeof_string_def parse_of_string replace_first_def Let_def)
  qed
qed

lemma find_close_iff:
  "find_close t = Some j \<longleftrightarrow> closes (drop j t) \<and> (\<forall>i<j. \<not> closes (drop i t))"
proof (induction t arbitrary: j)
  case Nil
  show ?case
    by (simp add: closes_def)
next
  case (Cons c cs)
  show ?case
  proof (cases j)
    case 0
    then show ?thesis
      by auto
  next
    case (Suc j')
    have "(\<forall>i<Suc j'. \<not> closes (drop i (c # cs))) \<longleftrightarrow>
        \<not> closes (c # cs) \<and> (\<forall>i<j'. \<not> closes (drop i cs))"
      by (auto simp: less_Suc_eq_0_disj)
    then show ?thesis
      using Cons [of j'] Suc by auto
  qed
qed

text \<open>
  C3, as the code has it.  The frontmatter block is recognized exactly when the document
  begins with \<open>---\<close> and a line break (LF or CRLF) and, somewhere after that, has a line
  break followed by \<open>---\<close>; what follows this closing \<open>---\<close> is not looked at.  The closing
  \<open>---\<close> needs a line break of its own, after the one that ends the opening line.  When no
  block is recognized, the document is returned as it is, with empty frontmatter.  When a
  block is recognized, its body is the text from the end of the opening line to the first
  line break that has \<open>---\<close> after it; the pattern captures this body, and replacing the
  match by nothing leaves the text after the closing \<open>---\<close>, without one CR and one LF
  that may follow it directly.  The frontmatter of the result is read from the body, its
  \<open>rawContent\<close> is the trimmed remainder, and its \<open>content\<close> is the rendering of that.
\<close>

theorem frontmatter_recognition:
  "(recognizes_frontmatter doc \<longleftrightarrow>
      (\<exists>nl1 body nl2 rest. doc = ''---'' @ nl1 @ body @ nl2 @ ''---'' @ rest \<and>
         is_newline nl1 \<and> is_newline nl2)) \<and>
   (\<not> recognizes_frontmatter doc \<longrightarrow>
      (\<exists>d. parseDocument (JString doc) = Inr d \<and> frontmatter d = Map.empty \<and> rawContent d = doc)) \<and>
   (recognizes_frontmatter doc \<longleftrightarrow> frontmatter_block doc \<noteq> None) \<and>
   (\<forall>body rest. frontmatter_block doc = Some (body, rest) \<longrightarrow>
      (\<exists>e. exec False frontmatter_pat [] doc = Some ([], e) \<and> cap e 1 = body) \<and>
      replace_first False frontmatter_pat [] doc = rest \<and>
      (\<exists>d. parseDocument (JString doc) = Inr d \<and> frontmatter d = parseFrontmatter body \<and>
           rawContent d = trim rest \<and> parse (JString (rawContent d)) = Inr (content d))) \<and>
   (find_close t = Some j \<longleftrightarrow> closes (drop j t) \<and> (\<forall>i<j. \<not> closes (drop i t)))"
proof -
  have "(\<exists>e. exec False frontmatter_pat [] doc = Some ([], e) \<and> cap e 1 = body) \<and>
      replace_first False frontmatter_pat [] doc = rest \<and>
      (\<exists>d. parseDocument (JString doc) = Inr d \<and> frontmatter d = parseFrontmatter body \<and>
           rawContent d = trim rest \<and> parse (JString (rawContent d)) = Inr (content d))"
    if b: "frontmatter_block doc = Some (body, rest)" for body rest
  proof -
    from b obtain e where e: "exec False frontmatter_pat [] doc = Some ([], e)"
        "cap e 1 = body" "todo e = rest"
      using exec_frontmatter [of doc] by auto
    have "replace_first False frontmatter_pat [] doc = rest"
      by (simp add: replace_first_def e)
    moreover have "\<exists>d. parseDocument (JString doc) = Inr d \<and> frontmatter d = parseFrontmatter body \<and>
           rawContent d = trim rest \<and> parse (JString (rawContent d)) = Inr (content d)"
      using parseDocument_block [of doc] b by simp
    ultimately show ?thesis
      using e by blast
  qed
  then show ?thesis
    using recognizes_iff [of doc] parseDocument_unrecognized [of doc] recognizes_block [of doc]
      find_close_iff [of t j]
    by blast
qed

theorem frontmatter_recognition_witness:
  "recognizes_frontmatter (''---'' @ [LF] @ ''title: Hi'' @ [LF] @ ''---'' @ [LF] @ ''# Body'') \<and>
   (\<exists>d. parseDocument (JString (''---'' @ [LF] @ ''title: Hi'' @ [LF] @ ''---'' @ [LF] @ ''# Body'')) = Inr d \<and>
        frontmatter d ''title'' = Some (VString ''Hi'') \<and> rawContent d = ''# Body'') \<and>
   replace_first False frontmatter_pat [] (''---'' @ [LF] @ ''title: Hi'' @ [LF] @ ''---'' @ [LF] @ ''# Body'') = ''# Body'' \<and>
   recognizes_frontmatter (''---'' @ [LF] @ ''---'' @ [LF] @ ''---'') \<and>
   recognizes_frontmatter (''---'' @ [LF] @ [LF] @ ''---'') \<and>
   \<not> recognizes_frontmatter ''# Hi'' \<and>
   (\<exists>d. parseDocument (JString ''# Hi'') = Inr d \<and> frontmatter d = Map.empty \<and> rawContent d = ''# Hi'')"
proof -
  define doc where "doc = ''---'' @ [LF] @ ''title: Hi'' @ [LF] @ ''---'' @ [LF] @ ''# Body''"
  have b1: "frontmatter_block doc = Some (''title: Hi'', ''# Body'')"
    unfolding doc_def by code_simp
  have b2: "frontmatter_block (''---'' @ [LF] @ ''---'' @ [LF] @ ''---'') = Some (''---'', [])"
    by code_simp
  have b3: "frontmatter_block (''---'' @ [LF] @ [LF] @ ''---'') = Some ([], [])"
    by code_simp
  have b4: "frontmatter_block ''# Hi'' = None"
    by code_simp
  have p: "parseFrontmatter ''title: Hi'' ''title'' = Some (VString ''Hi'')"
    by code_simp
  have t: "trim ''# Body'' = ''# Body''"
    by code_simp
  from frontmatter_recognition [of doc "[]" 0]
  have A: "recognizes_frontmatter doc \<longleftrightarrow> frontmatter_block doc \<noteq> None"
    and B: "\<forall>body rest. frontmatter_block doc = Some (body, rest) \<longrightarrow>
      (\<exists>e. exec False frontmatter_pat [] doc = Some ([], e) \<and> cap e 1 = body) \<and>
      replace_first False frontmatter_pat [] doc = rest \<and>
      (\<exists>d. parseDocument (JString doc) = Inr d \<and> frontmatter d = parseFrontmatter body \<and>
           rawContent d = trim rest \<and> parse (JString (rawContent d)) = Inr (content d))"
    by blast+
  from A b1 have 1: "recognizes_frontmatter doc"
    by simp
  from B b1 have 3: "replace_first False frontmatter_pat [] doc = ''# Body''"
    and "\<exists>d. parseDocument (JString doc) = Inr d \<and> frontmatter d = parseFrontmatter ''title: Hi'' \<and>
           rawContent d = trim ''# Body'' \<and> parse (JString (rawContent d)) = Inr (content d)"
    by blast+
  then obtain d where "parseDocument (JString doc) = Inr d" "frontmatter d = parseFrontmatter ''title: Hi''"
      "rawContent d = trim ''# Body''"
    by blast
  with p t have 2: "\<exists>d. parseDocument (JString doc) = Inr d \<and>
      frontmatter d ''title'' = Some (VString ''Hi'') \<and> rawContent d = ''# Body''"
    by simp
  have "recognizes_frontmatter (''---'' @ [LF] @ ''---'' @ [LF] @ ''---'') \<longleftrightarrow>
      frontmatter_block (''---'' @ [LF] @ ''---'' @ [LF] @ ''---'') \<noteq> None"
    using frontmatter_recognition [of "''---'' @ [LF] @ ''---'' @ [LF] @ ''---''" "[]" 0] by blast
  with b2 have 4: "recognizes_frontmatter (''---'' @ [LF] @ ''---'' @ [LF] @ ''---'')"
    by simp
  have "recognizes_frontmatter (''---'' @ [LF] @ [LF] @ ''---'') \<longleftrightarrow>
      frontmatter_block (''---'' @ [LF] @ [LF] @ ''---'') \<noteq> None"
    using frontmatter_recognition [of "''---'' @ [LF] @ [LF] @ ''---''" "[]" 0] by blast
  with b3 have 5: "recognizes_frontmatter (''---'' @ [LF] @ [LF] @ ''---'')"
    by simp
  from frontmatter_recognition [of "''# Hi''" "[]" 0]
  have "recognizes_frontmatter ''# Hi'' \<longleftrightarrow> frontmatter_block ''# Hi'' \<noteq> None"
    and C: "\<not> recognizes_frontmatter ''# Hi'' \<longrightarrow>
      (\<exists>d. parseDocument (JString ''# Hi'') = Inr d \<and> frontmatter d = Map.empty \<and> rawContent d = ''# Hi'')"
    by blast+
  with b4 have 6: "\<not> recognizes_frontmatter ''# Hi''"
    by simp
  with C have 7: "\<exists>d. parseDocument (JString ''# Hi'') = Inr d \<and> frontmatter d = Map.empty \<and> rawContent d = ''# Hi''"
    by blast
  from 1 2 3 4 5 6 7 show ?thesis
    unfolding doc_def by blast
qed

theorem frontmatter_recognition_counterexample:
  "\<not> recognizes_frontmatter (''---'' @ [LF] @ ''---'' @ [LF] @ ''# Hi'') \<and>
   recognizes_frontmatter (''---'' @ [LF] @ ''a: 1'' @ [LF] @ ''---trailing'')"
proof -
  have "\<not> recognizes_frontmatter (''---'' @ [LF] @ ''---'' @ [LF] @ ''# Hi'')"
    unfolding recognizes_iff
    by (auto simp: is_newline_def append_eq_Cons_conv Cons_eq_append_conv LF_def CR_def)
  moreover have "is_newline [LF]"
    by (simp add: is_newline_def)
  then have "\<exists>nl1 body nl2 rest.
      ''---'' @ [LF] @ ''a: 1'' @ [LF] @ ''---trailing'' = ''---'' @ nl1 @ body @ nl2 @ ''---'' @ rest \<and>
      is_newline nl1 \<and> is_newline nl2"
    by (intro exI [of _ "[LF]"] exI [of _ "''a: 1''"] exI [of _ "''trailing''"]) simp
  then have "recognizes_frontmatter (''---'' @ [LF] @ ''a: 1'' @ [LF] @ ''---trailing'')"
    by (simp only: recognizes_iff)
  ultimately show ?thesis by blast
qed

end
